theory Spec2Isabelle
  imports Complex_Main
begin

section \<open>dsa.py: merge sort and sorted-list intersection\<close>

text \<open>
  \<^verbatim>\<open>_merge(left, right, key, reverse)\<close>: the two indices \<open>i\<close>, \<open>j\<close> of the source walk the two
  lists from the front, so the model recurses on the remaining suffixes \<open>left[i:]\<close> and
  \<open>right[j:]\<close>. When one side is exhausted the loop ends and the two \<open>extend\<close> calls append what
  is left of the other side. The key type is any linear order (the engine sorts by integer and
  float keys).
\<close>

fun merge :: "('a \<Rightarrow> 'k::linorder) \<Rightarrow> bool \<Rightarrow> 'a list \<Rightarrow> 'a list \<Rightarrow> 'a list" where
  "merge key reverse [] right = right"
| "merge key reverse left [] = left"
| "merge key reverse (x # left) (y # right) =
     (let a = key x; b = key y;
          take_left = (if reverse then a > b else a \<le> b)
      in if take_left then x # merge key reverse left (y # right)
         else y # merge key reverse (x # left) right)"

text \<open>
  \<^verbatim>\<open>merge_sort(arr, key, reverse)\<close>: split at \<open>mid = len(arr) // 2\<close>, sort both halves, merge.
\<close>

function merge_sort :: "('a \<Rightarrow> 'k::linorder) \<Rightarrow> bool \<Rightarrow> 'a list \<Rightarrow> 'a list" where
  "merge_sort key reverse arr =
     (if length arr \<le> 1 then arr
      else let mid = length arr div 2;
               left = merge_sort key reverse (take mid arr);
               right = merge_sort key reverse (drop mid arr)
           in merge key reverse left right)"
  by pat_completeness auto
termination
  by (relation "measure (\<lambda>(key, reverse, arr). length arr)") auto

declare merge_sort.simps [simp del]

text \<open>
  \<^verbatim>\<open>intersect_sorted(a, b)\<close>: the two-pointer walk; the loop stops as soon as either list is
  exhausted.
\<close>

fun intersect_sorted :: "int list \<Rightarrow> int list \<Rightarrow> int list" where
  "intersect_sorted [] b = []"
| "intersect_sorted a [] = []"
| "intersect_sorted (x # a) (y # b) =
     (if x = y then x # intersect_sorted a b
      else if x < y then intersect_sorted a (y # b)
      else intersect_sorted (x # a) b)"



section \<open>models.py: the event record\<close>

record DisasterEvent =
  event_id :: int
  dis_no :: string
  country :: string
  disaster_type :: string
  disaster_subtype :: string
  start_year :: int
  start_month :: "int option"
  start_day :: "int option"
  end_year :: "int option"
  end_month :: "int option"
  end_day :: "int option"
  total_deaths :: "int option"
  total_affected :: "int option"
  total_damage_adj_usd :: "real option"

text \<open>
  \<^verbatim>\<open>start_date_key\<close>: \<open>self.start_month or 1\<close> takes 1 when the month is \<open>None\<close> and also
  when it is 0 (both are false values in Python); the same for the day.
\<close>

definition or_one :: "int option \<Rightarrow> int" where
  "or_one v = (case v of None \<Rightarrow> 1 | Some n \<Rightarrow> if n = 0 then 1 else n)"

definition start_date_key :: "DisasterEvent \<Rightarrow> int" where
  "start_date_key e =
     (let m = or_one (start_month e); d = or_one (start_day e)
      in start_year e * 10000 + m * 100 + d)"


section \<open>Python values and the runtime library\<close>

text \<open>
  The exceptions the modelled code can raise. \<open>ParseError\<close> is the query language's own
  exception (its message text is not modelled); the others are Python's built-in ones.
\<close>

datatype error = ParseError | TypeError | ValueError | IndexError

text \<open>
  The values a comparison literal or a record attribute can hold: \<open>int\<close>, \<open>float\<close>,
  \<open>str\<close> and \<open>None\<close>. A float is represented by the real number it denotes (NaN and the
  infinities are left out). Strings are lists of 8-bit characters, read as the code points
  0 to 255. \<open>PObj t\<close> stands for any other object an attribute lookup can return (a bound
  method, a class, a dictionary, a tuple); all the code does with such an object is compare it
  with a literal and take its text \<open>str(x)\<close>, which is \<open>t\<close>.
\<close>

datatype pyval = PInt int | PFloat real | PStr string | PNone | PObj string

text \<open>
  What belongs to the Python runtime rather than to this repository is a parameter of the
  model: \<open>float(s)\<close>, \<open>str(x)\<close> for a float \<open>x\<close>, \<open>int(s)\<close> for an arbitrary string \<open>s\<close>,
  the \<open>unicode_escape\<close> codec on text that contains a backslash, the value of an attribute
  whose name begins with two underscores (\<open>__class__\<close>, \<open>__doc__\<close>, \<open>__dict__\<close> and the other
  attributes every object carries; \<open>None\<close> for a name the object does not have), and the text
  of the bound method \<open>start_date_key\<close> of an event. Every theorem below that mentions a
  runtime \<open>rt\<close> holds for all choices of these.
\<close>

record pyrt =
  float_of_str :: "string \<Rightarrow> real"
  str_of_float :: "real \<Rightarrow> string"
  int_of_str :: "string \<Rightarrow> error + int"
  unicode_escape :: "string \<Rightarrow> error + string"
  dunder_attr :: "DisasterEvent \<Rightarrow> string \<Rightarrow> pyval"
  method_text :: "DisasterEvent \<Rightarrow> string"

text \<open>
  \<open>xs[i]\<close> on a Python list of length \<open>n\<close>: the positions \<open>0 .. n - 1\<close> are read directly,
  the indices \<open>-n .. -1\<close> are read from the end, and every other index raises \<open>IndexError\<close>.
\<close>

definition py_index :: "'a list \<Rightarrow> int \<Rightarrow> error + 'a" where
  "py_index xs i =
     (if 0 \<le> i \<and> i < int (length xs) then Inr (xs ! nat i)
      else if - int (length xs) \<le> i \<and> i < 0 then Inr (xs ! nat (int (length xs) + i))
      else Inl IndexError)"

text \<open>\<open>str.lower()\<close> on the code points 0 to 255.\<close>

definition upper_letters :: string where
  "upper_letters = ''ABCDEFGHIJKLMNOPQRSTUVWXYZ'' @
     [CHR 0xC0, CHR 0xC1, CHR 0xC2, CHR 0xC3, CHR 0xC4, CHR 0xC5, CHR 0xC6, CHR 0xC7,
      CHR 0xC8, CHR 0xC9, CHR 0xCA, CHR 0xCB, CHR 0xCC, CHR 0xCD, CHR 0xCE, CHR 0xCF,
      CHR 0xD0, CHR 0xD1, CHR 0xD2, CHR 0xD3, CHR 0xD4, CHR 0xD5, CHR 0xD6,
      CHR 0xD8, CHR 0xD9, CHR 0xDA, CHR 0xDB, CHR 0xDC, CHR 0xDD, CHR 0xDE]"

definition lower_letters :: string where
  "lower_letters = ''abcdefghijklmnopqrstuvwxyz'' @
     [CHR 0xE0, CHR 0xE1, CHR 0xE2, CHR 0xE3, CHR 0xE4, CHR 0xE5, CHR 0xE6, CHR 0xE7,
      CHR 0xE8, CHR 0xE9, CHR 0xEA, CHR 0xEB, CHR 0xEC, CHR 0xED, CHR 0xEE, CHR 0xEF,
      CHR 0xF0, CHR 0xF1, CHR 0xF2, CHR 0xF3, CHR 0xF4, CHR 0xF5, CHR 0xF6,
      CHR 0xF8, CHR 0xF9, CHR 0xFA, CHR 0xFB, CHR 0xFC, CHR 0xFD, CHR 0xFE]"

definition lower_char :: "char \<Rightarrow> char" where
  "lower_char c = (case map_of (zip upper_letters lower_letters) c of Some l \<Rightarrow> l | None \<Rightarrow> c)"

definition lower :: "string \<Rightarrow> string" where
  "lower s = map lower_char s"

text \<open>Whitespace as \<open>str.isspace\<close> and the regular expression class \<open>\s\<close> see it.\<close>

definition is_space :: "char \<Rightarrow> bool" where
  "is_space c = (let n = (of_char c :: nat)
                 in (9 \<le> n \<and> n \<le> 13) \<or> (28 \<le> n \<and> n \<le> 32) \<or> n = 133 \<or> n = 160)"

definition strip :: "string \<Rightarrow> string" where
  "strip s = rev (dropWhile is_space (rev (dropWhile is_space s)))"

text \<open>\<open>str(n)\<close> for an integer: its decimal digits.\<close>

definition digit_char :: "nat \<Rightarrow> char" where
  "digit_char d = ''0123456789'' ! d"

function str_of_nat :: "nat \<Rightarrow> string" where
  "str_of_nat n = (if n < 10 then [digit_char n] else str_of_nat (n div 10) @ [digit_char (n mod 10)])"
  by pat_completeness auto
termination
  by (relation "measure (\<lambda>n. n)") auto

declare str_of_nat.simps [simp del]

definition str_of_int :: "int \<Rightarrow> string" where
  "str_of_int i = (if i < 0 then CHR ''-'' # str_of_nat (nat (- i)) else str_of_nat (nat i))"

text \<open>
  CPython refuses to convert between \<open>int\<close> and decimal text when more than 4300 digits are
  involved (the default of \<open>sys.int_info.default_max_str_digits\<close>): both \<open>int(s)\<close> and
  \<open>str(n)\<close> raise \<open>ValueError\<close> then. The sign does not count; leading zeros do.
\<close>

definition int_max_str_digits :: nat where
  "int_max_str_digits = 4300"

text \<open>\<open>str(v)\<close>.\<close>

definition py_str :: "pyrt \<Rightarrow> pyval \<Rightarrow> error + string" where
  "py_str rt v =
     (case v of
        PInt i \<Rightarrow> if int_max_str_digits < length (str_of_nat (nat \<bar>i\<bar>)) then Inl ValueError
                  else Inr (str_of_int i)
      | PFloat r \<Rightarrow> Inr (str_of_float rt r)
      | PStr s \<Rightarrow> Inr s
      | PNone \<Rightarrow> Inr ''None''
      | PObj t \<Rightarrow> Inr t)"

text \<open>
  \<open>int(v)\<close>: a float is truncated towards zero, a string goes through the runtime, and
  \<open>None\<close> or another object raises \<open>TypeError\<close>.
\<close>

definition py_int :: "pyrt \<Rightarrow> pyval \<Rightarrow> error + int" where
  "py_int rt v = (case v of PInt i \<Rightarrow> Inr i
                  | PFloat r \<Rightarrow> Inr (if 0 \<le> r then \<lfloor>r\<rfloor> else \<lceil>r\<rceil>)
                  | PStr s \<Rightarrow> int_of_str rt s
                  | PNone \<Rightarrow> Inl TypeError
                  | PObj t \<Rightarrow> Inl TypeError)"

text \<open>
  Python's comparisons. \<open>==\<close> never raises: numbers compare by value, strings by content,
  \<open>None\<close> equals only \<open>None\<close>, and values of unrelated types are unequal (a method, class,
  dictionary or tuple never equals a number, a string or \<open>None\<close>). The ordering operators are
  defined between two numbers and between two strings (by code points); every other
  combination, in particular any ordering with \<open>None\<close> or with another object, raises
  \<open>TypeError\<close>.
\<close>

fun py_eq :: "pyval \<Rightarrow> pyval \<Rightarrow> bool" where
  "py_eq (PInt a) (PInt b) = (a = b)"
| "py_eq (PInt a) (PFloat b) = (real_of_int a = b)"
| "py_eq (PFloat a) (PInt b) = (a = real_of_int b)"
| "py_eq (PFloat a) (PFloat b) = (a = b)"
| "py_eq (PStr a) (PStr b) = (a = b)"
| "py_eq PNone PNone = True"
| "py_eq _ _ = False"

fun str_lt :: "string \<Rightarrow> string \<Rightarrow> bool" where
  "str_lt [] [] = False"
| "str_lt [] (d # t) = True"
| "str_lt (c # s) [] = False"
| "str_lt (c # s) (d # t) =
     (if (of_char c :: nat) < of_char d then True
      else if (of_char d :: nat) < of_char c then False
      else str_lt s t)"

fun py_lt :: "pyval \<Rightarrow> pyval \<Rightarrow> error + bool" where
  "py_lt (PInt a) (PInt b) = Inr (a < b)"
| "py_lt (PInt a) (PFloat b) = Inr (real_of_int a < b)"
| "py_lt (PFloat a) (PInt b) = Inr (a < real_of_int b)"
| "py_lt (PFloat a) (PFloat b) = Inr (a < b)"
| "py_lt (PStr a) (PStr b) = Inr (str_lt a b)"
| "py_lt _ _ = Inl TypeError"

fun py_le :: "pyval \<Rightarrow> pyval \<Rightarrow> error + bool" where
  "py_le (PInt a) (PInt b) = Inr (a \<le> b)"
| "py_le (PInt a) (PFloat b) = Inr (real_of_int a \<le> b)"
| "py_le (PFloat a) (PInt b) = Inr (a \<le> real_of_int b)"
| "py_le (PFloat a) (PFloat b) = Inr (a \<le> b)"
| "py_le (PStr a) (PStr b) = Inr (\<not> str_lt b a)"
| "py_le _ _ = Inl TypeError"

definition py_gt :: "pyval \<Rightarrow> pyval \<Rightarrow> error + bool" where
  "py_gt a b = py_lt b a"

definition py_ge :: "pyval \<Rightarrow> pyval \<Rightarrow> error + bool" where
  "py_ge a b = py_le b a"

text \<open>\<open>needle in hay\<close> on strings.\<close>

fun starts_with :: "string \<Rightarrow> string \<Rightarrow> bool" where
  "starts_with hay [] = True"
| "starts_with [] (c # needle) = False"
| "starts_with (d # hay) (c # needle) = (d = c \<and> starts_with hay needle)"

fun str_contains :: "string \<Rightarrow> string \<Rightarrow> bool" where
  "str_contains [] needle = (needle = [])"
| "str_contains (d # hay) needle = (starts_with (d # hay) needle \<or> str_contains hay needle)"


section \<open>indices.py: the lookup tables\<close>

text \<open>
  A Python \<open>dict\<close> whose values are ID lists is an association list in insertion order, with
  each key occurring once. \<open>d.get(k, [])\<close> is \<open>dict_get d k\<close>, and
  \<open>d.setdefault(k, []).append(v)\<close> is \<open>setdefault_append d k v\<close>.
\<close>

type_synonym 'k dict = "('k \<times> int list) list"

definition dict_get :: "'k dict \<Rightarrow> 'k \<Rightarrow> int list" where
  "dict_get d k = (case map_of d k of None \<Rightarrow> [] | Some ids \<Rightarrow> ids)"

fun setdefault_append :: "'k dict \<Rightarrow> 'k \<Rightarrow> int \<Rightarrow> 'k dict" where
  "setdefault_append [] k v = [(k, [v])]"
| "setdefault_append ((k', ids) # d) k v =
     (if k' = k then (k', ids @ [v]) # d else (k', ids) # setdefault_append d k v)"

record Indices =
  by_country :: "string dict"
  by_type :: "string dict"
  year_to_ids :: "int dict"
  years_sorted :: "int list"

text \<open>
  \<^verbatim>\<open>build_indices(events)\<close>: the first loop files every event under its country, its type and
  its start year; the second loop sorts every bucket; \<open>years_sorted\<close> is the sorted list of
  the keys of \<open>year_to_ids\<close>.
\<close>

fun build_loop ::
  "DisasterEvent list \<Rightarrow> string dict \<times> string dict \<times> int dict
     \<Rightarrow> string dict \<times> string dict \<times> int dict" where
  "build_loop [] acc = acc"
| "build_loop (e # es) (bc, bt, yi) =
     build_loop es (setdefault_append bc (country e) (event_id e),
                    setdefault_append bt (disaster_type e) (event_id e),
                    setdefault_append yi (start_year e) (event_id e))"

definition sort_buckets :: "'k dict \<Rightarrow> 'k dict" where
  "sort_buckets d = map (\<lambda>(k, ids). (k, sort ids)) d"

definition build_indices :: "DisasterEvent list \<Rightarrow> Indices" where
  "build_indices evs =
     (case build_loop evs ([], [], []) of (bc, bt, yi) \<Rightarrow>
        \<lparr> by_country = sort_buckets bc,
          by_type = sort_buckets bt,
          year_to_ids = sort_buckets yi,
          years_sorted = sort (map fst (sort_buckets yi)) \<rparr>)"

text \<open>
  \<open>bisect_left\<close> and \<open>bisect_right\<close> of Python's \<open>bisect\<close> module: the binary search loops
  of the standard library, on the index range \<open>lo..hi\<close>.
\<close>

function bisect_left_loop :: "int list \<Rightarrow> int \<Rightarrow> nat \<Rightarrow> nat \<Rightarrow> nat" where
  "bisect_left_loop a x lo hi =
     (if lo < hi
      then let mid = (lo + hi) div 2
           in if a ! mid < x then bisect_left_loop a x (mid + 1) hi
              else bisect_left_loop a x lo mid
      else lo)"
  by pat_completeness auto
termination
  by (relation "measure (\<lambda>(a, x, lo, hi). hi - lo)") auto

declare bisect_left_loop.simps [simp del]

definition bisect_left :: "int list \<Rightarrow> int \<Rightarrow> nat" where
  "bisect_left a x = bisect_left_loop a x 0 (length a)"

function bisect_right_loop :: "int list \<Rightarrow> int \<Rightarrow> nat \<Rightarrow> nat \<Rightarrow> nat" where
  "bisect_right_loop a x lo hi =
     (if lo < hi
      then let mid = (lo + hi) div 2
           in if x < a ! mid then bisect_right_loop a x lo mid
              else bisect_right_loop a x (mid + 1) hi
      else lo)"
  by pat_completeness auto
termination
  by (relation "measure (\<lambda>(a, x, lo, hi). hi - lo)") auto

declare bisect_right_loop.simps [simp del]

definition bisect_right :: "int list \<Rightarrow> int \<Rightarrow> nat" where
  "bisect_right a x = bisect_right_loop a x 0 (length a)"

text \<open>
  \<^verbatim>\<open>year_range_ids(idx, y1, y2)\<close>: the slice \<open>years_sorted[lo:hi]\<close> is
  \<open>drop lo (take hi years_sorted)\<close> (empty when \<open>hi \<le> lo\<close>); the buckets of its years are
  concatenated and the result sorted.
\<close>

definition year_range_ids :: "Indices \<Rightarrow> int \<Rightarrow> int \<Rightarrow> int list" where
  "year_range_ids ix y1 y2 =
     (let lo = bisect_left (years_sorted ix) y1;
          hi = bisect_right (years_sorted ix) y2;
          out = concat (map (\<lambda>y. dict_get (year_to_ids ix) y) (drop lo (take hi (years_sorted ix))))
      in sort out)"


section \<open>query\_lang.py: tokenizer\<close>

text \<open>
  Token kinds are the group names of the token pattern, together with the three kinds the
  tokenizer derives from a keyword match.
\<close>

datatype kind = LPAREN | RPAREN | OP | KW | NUMBER | STRING | IDENT | AND | OR | CONTAINS

datatype Token = Token (kind: kind) (tok_value: string)

text \<open>
  The character classes of the pattern: \<open>\d\<close>, the identifier classes \<open>[A-Za-z_]\<close> and
  \<open>[A-Za-z0-9_]\<close>, and the word characters \<open>\w\<close> that decide the word boundary \<open>\b\<close>.
\<close>

definition is_digit :: "char \<Rightarrow> bool" where
  "is_digit c = (let n = (of_char c :: nat) in 48 \<le> n \<and> n \<le> 57)"

definition is_ident_start :: "char \<Rightarrow> bool" where
  "is_ident_start c =
     (let n = (of_char c :: nat) in (65 \<le> n \<and> n \<le> 90) \<or> (97 \<le> n \<and> n \<le> 122) \<or> n = 95)"

definition is_ident_char :: "char \<Rightarrow> bool" where
  "is_ident_char c = (is_ident_start c \<or> is_digit c)"

definition is_word :: "char \<Rightarrow> bool" where
  "is_word c =
     (let n = (of_char c :: nat)
      in is_ident_char c \<or> n = 170 \<or> n = 178 \<or> n = 179 \<or> n = 181 \<or> n = 185 \<or> n = 186
         \<or> (188 \<le> n \<and> n \<le> 190) \<or> (192 \<le> n \<and> n \<le> 214) \<or> (216 \<le> n \<and> n \<le> 246)
         \<or> 248 \<le> n)"

definition head :: "string \<Rightarrow> char option" where
  "head s = (case s of [] \<Rightarrow> None | c # _ \<Rightarrow> Some c)"

definition word_boundary :: "char option \<Rightarrow> char option \<Rightarrow> bool" where
  "word_boundary l r =
     ((case l of None \<Rightarrow> False | Some c \<Rightarrow> is_word c)
        \<noteq> (case r of None \<Rightarrow> False | Some c \<Rightarrow> is_word c))"

text \<open>
  Each alternative of the pattern, tried on the text \<open>s\<close> that starts at the current
  position; the result is the length of the match. \<open>prev\<close> is the character just before that
  position, which the word boundary of the keyword alternative looks at. The alternatives are
  greedy and never need to give characters back, because the rest of the pattern (optional
  whitespace) matches anything.
\<close>

definition re_op :: "string \<Rightarrow> nat option" where
  "re_op s =
     (if take 2 s = ''=='' \<or> take 2 s = ''!='' \<or> take 2 s = ''>='' \<or> take 2 s = ''<=''
      then Some 2
      else if head s = Some (CHR ''>'') \<or> head s = Some (CHR ''<'') then Some 1
      else None)"

definition re_kw_word :: "string \<Rightarrow> char option \<Rightarrow> string \<Rightarrow> nat option" where
  "re_kw_word w prev s =
     (let n = length w
      in if word_boundary prev (head s) \<and> lower (take n s) = w
            \<and> word_boundary (head (drop (n - 1) s)) (head (drop n s))
         then Some n else None)"

definition re_kw :: "char option \<Rightarrow> string \<Rightarrow> nat option" where
  "re_kw prev s =
     (case re_kw_word ''and'' prev s of Some n \<Rightarrow> Some n
      | None \<Rightarrow> (case re_kw_word ''or'' prev s of Some n \<Rightarrow> Some n
      | None \<Rightarrow> re_kw_word ''contains'' prev s))"

definition re_number :: "string \<Rightarrow> nat option" where
  "re_number s =
     (let sign = (if head s = Some (CHR ''-'') then 1 else 0);
          ds = takeWhile is_digit (drop sign s);
          after = drop (sign + length ds) s;
          fs = takeWhile is_digit (drop 1 after)
      in if ds = [] then None
         else if head after = Some (CHR ''.'') \<and> fs \<noteq> [] then Some (sign + length ds + 1 + length fs)
         else Some (sign + length ds))"

text \<open>
  The body of a quoted string after the opening quote \<open>q\<close>: characters other than the quote
  and the backslash, or a backslash followed by any character except a newline, up to the
  closing quote. The result counts the characters up to and including the closing quote.
\<close>

fun re_string_body :: "char \<Rightarrow> string \<Rightarrow> nat option" where
  "re_string_body q [] = None"
| "re_string_body q (c # s) =
     (if c = q then Some 1
      else if c = CHR 0x5C
      then (case s of [] \<Rightarrow> None
            | d # s' \<Rightarrow> if d = CHR 0x0A then None
                        else map_option (\<lambda>n. n + 2) (re_string_body q s'))
      else map_option Suc (re_string_body q s))"

definition re_string :: "string \<Rightarrow> nat option" where
  "re_string s =
     (case s of [] \<Rightarrow> None
      | c # rest \<Rightarrow> if c = CHR 0x22 \<or> c = CHR 0x27 then map_option Suc (re_string_body c rest)
                    else None)"

definition re_ident :: "string \<Rightarrow> nat option" where
  "re_ident s =
     (case s of [] \<Rightarrow> None
      | c # rest \<Rightarrow> if is_ident_start c then Some (Suc (length (takeWhile is_ident_char rest)))
                    else None)"

definition re_token :: "char option \<Rightarrow> string \<Rightarrow> (kind \<times> nat) option" where
  "re_token prev s =
     (if head s = Some (CHR ''('') then Some (LPAREN, 1)
      else if head s = Some (CHR '')'') then Some (RPAREN, 1)
      else case re_op s of Some n \<Rightarrow> Some (OP, n) | None \<Rightarrow>
          (case re_kw prev s of Some n \<Rightarrow> Some (KW, n) | None \<Rightarrow>
          (case re_number s of Some n \<Rightarrow> Some (NUMBER, n) | None \<Rightarrow>
          (case re_string s of Some n \<Rightarrow> Some (STRING, n) | None \<Rightarrow>
          (case re_ident s of Some n \<Rightarrow> Some (IDENT, n) | None \<Rightarrow> None)))))"

text \<open>
  \<^verbatim>\<open>_TOKEN_RE.match(s, pos)\<close>: leading whitespace, one alternative, trailing whitespace. The
  result is the matched group, its text, and the end position of the whole match.
\<close>

definition token_re_match :: "string \<Rightarrow> nat \<Rightarrow> (kind \<times> string \<times> nat) option" where
  "token_re_match s pos =
     (let p1 = pos + length (takeWhile is_space (drop pos s));
          prev = (if p1 = 0 then None else Some (s ! (p1 - 1)))
      in case re_token prev (drop p1 s) of None \<Rightarrow> None
         | Some (k, n) \<Rightarrow>
             Some (k, take n (drop p1 s), p1 + n + length (takeWhile is_space (drop (p1 + n) s))))"

text \<open>A keyword match becomes an \<open>AND\<close>, \<open>OR\<close> or \<open>CONTAINS\<close> token with a normalised text.\<close>

definition make_token :: "kind \<Rightarrow> string \<Rightarrow> Token" where
  "make_token k v =
     (if k = KW
      then (let vnorm = lower v
            in if vnorm = ''and'' then Token AND ''AND''
               else if vnorm = ''or'' then Token OR ''OR''
               else Token CONTAINS ''contains'')
      else Token k v)"

lemma re_string_body_pos: "re_string_body q s = Some n \<Longrightarrow> 0 < n"
  by (induction q s arbitrary: n rule: re_string_body.induct) (auto split: if_splits list.splits)

lemma re_token_pos: "re_token prev s = Some (k, n) \<Longrightarrow> 0 < n"
  by (auto simp: re_token_def re_op_def re_kw_def re_kw_word_def re_number_def re_string_def
        re_ident_def Let_def
      split: if_splits option.splits list.splits dest: re_string_body_pos)

lemma token_re_match_advances: "token_re_match s pos = Some (k, v, e) \<Longrightarrow> pos < e"
  by (auto simp: token_re_match_def Let_def split: option.splits dest: re_token_pos)

text \<open>
  \<^verbatim>\<open>tokenize(s)\<close>: match at \<open>pos\<close> until the end of the string; no match is a
  \<open>ParseError\<close>.
\<close>

function tokenize_loop :: "string \<Rightarrow> nat \<Rightarrow> error + Token list" where
  "tokenize_loop s pos =
     (if pos < length s
      then (case token_re_match s pos of None \<Rightarrow> Inl ParseError
            | Some (k, v, e) \<Rightarrow>
                (case tokenize_loop s e of Inl err \<Rightarrow> Inl err
                 | Inr out \<Rightarrow> Inr (make_token k v # out)))
      else Inr [])"
  by pat_completeness auto
termination tokenize_loop
  by (relation "measure (\<lambda>(s, pos). length s - pos)")
     (auto dest: token_re_match_advances)

declare tokenize_loop.simps [simp del]

definition tokenize :: "string \<Rightarrow> error + Token list" where
  "tokenize s = tokenize_loop s 0"


section \<open>query\_lang.py: syntax tree and parser\<close>

datatype Node = And Node Node | Or Node Node | Cmp string string pyval

text \<open>
  \<open>int(tok.value)\<close> for a \<open>NUMBER\<close> token without a decimal point: the text is an optional
  minus sign followed by decimal digits.
\<close>

definition digit_val :: "char \<Rightarrow> nat" where
  "digit_val c = of_char c - 48"

definition nat_of_digits :: "string \<Rightarrow> nat" where
  "nat_of_digits ds = foldl (\<lambda>n c. 10 * n + digit_val c) 0 ds"

definition int_of_number :: "string \<Rightarrow> int" where
  "int_of_number s =
     (case s of [] \<Rightarrow> 0
      | c # ds \<Rightarrow> if c = CHR ''-'' then - int (nat_of_digits ds) else int (nat_of_digits s))"

text \<open>
  \<open>s.encode("utf-8").decode("unicode_escape")\<close>: the text is turned into its UTF-8 bytes and
  the bytes are read back one character per byte, with backslash escapes interpreted. A
  character below 128 is one byte and comes back as itself; a character from 128 to 255 is two
  bytes and comes back as two characters. Text without a backslash is decoded here; text with
  a backslash is left to the runtime.
\<close>

definition utf8_as_latin1 :: "char \<Rightarrow> string" where
  "utf8_as_latin1 c =
     (let n = (of_char c :: nat)
      in if n < 128 then [c] else [char_of (192 + n div 64), char_of (128 + n mod 64)])"

definition decode_escapes :: "pyrt \<Rightarrow> string \<Rightarrow> error + string" where
  "decode_escapes rt s =
     (if CHR 0x5C \<in> set s then unicode_escape rt s else Inr (concat (map utf8_as_latin1 s)))"

text \<open>
  \<^verbatim>\<open>_coerce_value(tok)\<close>: a number with a decimal point is a float, any other number an
  integer (\<open>int\<close> raises \<open>ValueError\<close> when the text has more digits than the conversion limit);
  a quoted string loses its quotes and goes through the codec; a bare identifier is taken as a
  string.
\<close>

definition coerce_value :: "pyrt \<Rightarrow> Token \<Rightarrow> error + pyval" where
  "coerce_value rt tok =
     (if kind tok = NUMBER
      then (if CHR ''.'' \<in> set (tok_value tok) then Inr (PFloat (float_of_str rt (tok_value tok)))
            else if int_max_str_digits < length (filter is_digit (tok_value tok))
            then Inl ValueError
            else Inr (PInt (int_of_number (tok_value tok))))
      else if kind tok = STRING
      then (case tok_value tok of [] \<Rightarrow> Inl IndexError
            | c # _ \<Rightarrow>
                (let s = tok_value tok;
                     s' = (if c = last s \<and> (c = CHR 0x27 \<or> c = CHR 0x22) then butlast (tl s) else s)
                 in case decode_escapes rt s' of Inl err \<Rightarrow> Inl err | Inr d \<Rightarrow> Inr (PStr d)))
      else Inr (PStr (tok_value tok)))"

text \<open>
  The parser object holds the token list and an index \<open>i\<close>; the model passes the tokens that
  remain, \<open>toks[i:]\<close>. \<open>take\<close> consumes a token of the expected kind or raises; \<open>match\<close>
  consumes a token when its kind is one of those given and otherwise leaves the input alone.
\<close>

definition at_end :: "Token list \<Rightarrow> bool" where
  "at_end ts = (ts = [])"

definition take_tok :: "kind \<Rightarrow> Token list \<Rightarrow> error + (Token \<times> Token list)" where
  "take_tok k ts =
     (case ts of [] \<Rightarrow> Inl ParseError
      | t # rest \<Rightarrow> if kind t \<noteq> k then Inl ParseError else Inr (t, rest))"

definition match_tok :: "kind list \<Rightarrow> Token list \<Rightarrow> (Token \<times> Token list) option" where
  "match_tok ks ts =
     (case ts of [] \<Rightarrow> None
      | t # rest \<Rightarrow> if kind t \<in> set ks then Some (t, rest) else None)"

definition parse_comparison :: "pyrt \<Rightarrow> Token list \<Rightarrow> error + (Node \<times> Token list)" where
  "parse_comparison rt ts =
     (case take_tok IDENT ts of Inl err \<Rightarrow> Inl err
      | Inr (ftok, ts1) \<Rightarrow>
          (case (case match_tok [CONTAINS] ts1 of Some (_, ts2) \<Rightarrow> Inr (''contains'', ts2)
                 | None \<Rightarrow> (case take_tok OP ts1 of Inl err \<Rightarrow> Inl err
                             | Inr (otok, ts2) \<Rightarrow> Inr (tok_value otok, ts2)))
           of Inl err \<Rightarrow> Inl err
           | Inr (op, ts2) \<Rightarrow>
               (case match_tok [NUMBER, STRING, IDENT] ts2 of None \<Rightarrow> Inl ParseError
                | Some (val_tok, ts3) \<Rightarrow>
                    (case coerce_value rt val_tok of Inl err \<Rightarrow> Inl err
                     | Inr v \<Rightarrow> Inr (Cmp (tok_value ftok) op v, ts3)))))"

text \<open>
  The recursive descent. The two \<open>while\<close> loops are \<open>expr_loop\<close> and \<open>term_loop\<close>, which
  carry the tree built so far. Each loop continues on the input its last sub-parse left over;
  the test that this input is no longer than before is there for the termination proof only
  and always succeeds (lemma \<open>parse_consumes\<close> below).
\<close>

function parse_expr :: "pyrt \<Rightarrow> Token list \<Rightarrow> error + (Node \<times> Token list)"
  and expr_loop :: "pyrt \<Rightarrow> Node \<Rightarrow> Token list \<Rightarrow> error + (Node \<times> Token list)"
  and parse_term :: "pyrt \<Rightarrow> Token list \<Rightarrow> error + (Node \<times> Token list)"
  and term_loop :: "pyrt \<Rightarrow> Node \<Rightarrow> Token list \<Rightarrow> error + (Node \<times> Token list)"
  and parse_factor :: "pyrt \<Rightarrow> Token list \<Rightarrow> error + (Node \<times> Token list)"
where
  "parse_expr rt ts =
     (case parse_term rt ts of Inl err \<Rightarrow> Inl err
      | Inr (node, rest) \<Rightarrow>
          if length rest \<le> length ts then expr_loop rt node rest else Inl ParseError)"
| "expr_loop rt node ts =
     (case match_tok [OR] ts of None \<Rightarrow> Inr (node, ts)
      | Some (_, ts') \<Rightarrow>
          (case parse_term rt ts' of Inl err \<Rightarrow> Inl err
           | Inr (rhs, rest) \<Rightarrow>
               if length rest \<le> length ts' then expr_loop rt (Or node rhs) rest
               else Inl ParseError))"
| "parse_term rt ts =
     (case parse_factor rt ts of Inl err \<Rightarrow> Inl err
      | Inr (node, rest) \<Rightarrow>
          if length rest \<le> length ts then term_loop rt node rest else Inl ParseError)"
| "term_loop rt node ts =
     (case match_tok [AND] ts of None \<Rightarrow> Inr (node, ts)
      | Some (_, ts') \<Rightarrow>
          (case parse_factor rt ts' of Inl err \<Rightarrow> Inl err
           | Inr (rhs, rest) \<Rightarrow>
               if length rest \<le> length ts' then term_loop rt (And node rhs) rest
               else Inl ParseError))"
| "parse_factor rt ts =
     (case match_tok [LPAREN] ts of
        Some (_, ts') \<Rightarrow>
          (case parse_expr rt ts' of Inl err \<Rightarrow> Inl err
           | Inr (node, rest) \<Rightarrow>
               (case take_tok RPAREN rest of Inl err \<Rightarrow> Inl err
                | Inr (_, rest') \<Rightarrow> Inr (node, rest')))
      | None \<Rightarrow> parse_comparison rt ts)"
  by pat_completeness auto
termination
  by (relation "measure (\<lambda>x. case x of
          Inl (Inl (rt, ts)) \<Rightarrow> 5 * length ts + 4
        | Inl (Inr (rt, node, ts)) \<Rightarrow> 5 * length ts + 3
        | Inr (Inl (rt, ts)) \<Rightarrow> 5 * length ts + 2
        | Inr (Inr (Inl (rt, node, ts))) \<Rightarrow> 5 * length ts + 1
        | Inr (Inr (Inr (rt, ts))) \<Rightarrow> 5 * length ts)")
     (auto simp: match_tok_def split: list.splits if_splits)

declare parse_expr.simps [simp del] expr_loop.simps [simp del] parse_term.simps [simp del]
  term_loop.simps [simp del] parse_factor.simps [simp del]

text \<open>
  \<^verbatim>\<open>parse(expr)\<close>: tokenize, parse an expression, and reject input that remains.
\<close>

definition parse :: "pyrt \<Rightarrow> string \<Rightarrow> error + Node" where
  "parse rt expr =
     (case tokenize expr of Inl err \<Rightarrow> Inl err
      | Inr toks \<Rightarrow>
          (case parse_expr rt toks of Inl err \<Rightarrow> Inl err
           | Inr (node, rest) \<Rightarrow> if \<not> at_end rest then Inl ParseError else Inr node))"


section \<open>engine.py: selection state and history\<close>

record QueryState =
  active_ids :: "int list"
  last_sort :: "(string \<times> string \<times> bool) option"

text \<open>
  The engine object. The private stacks \<open>_undo\<close> and \<open>_redo\<close> are \<open>undo_stack\<close> and
  \<open>redo_stack\<close>; as in the source the top of a stack is the end of the list
  (\<open>append\<close> adds there and \<open>pop\<close> removes from there). The fields \<open>dataset_path\<close> and
  \<open>command_log\<close> play no part in the operations below and are left out.
\<close>

record ODIE =
  events :: "DisasterEvent list"
  idx :: Indices
  state :: QueryState
  undo_stack :: "int list list"
  redo_stack :: "int list list"

text \<open>Construction and \<^verbatim>\<open>__post_init__\<close>: all positions \<open>0 .. len(events) - 1\<close> are selected.\<close>

definition all_ids :: "DisasterEvent list \<Rightarrow> int list" where
  "all_ids evs = map int [0..<length evs]"

definition new_engine :: "DisasterEvent list \<Rightarrow> Indices \<Rightarrow> ODIE" where
  "new_engine evs ix =
     \<lparr> events = evs, idx = ix,
       state = \<lparr> active_ids = all_ids evs, last_sort = None \<rparr>,
       undo_stack = [], redo_stack = [] \<rparr>"

definition set_active :: "int list \<Rightarrow> ODIE \<Rightarrow> ODIE" where
  "set_active ids s = s\<lparr> state := (state s)\<lparr> active_ids := ids \<rparr> \<rparr>"

definition push_history :: "ODIE \<Rightarrow> ODIE" where
  "push_history s = s\<lparr> undo_stack := undo_stack s @ [active_ids (state s)], redo_stack := [] \<rparr>"

text \<open>\<open>undo\<close> and \<open>redo\<close> return the boolean result together with the engine afterwards.\<close>

definition undo :: "ODIE \<Rightarrow> bool \<times> ODIE" where
  "undo s =
     (if undo_stack s = [] then (False, s)
      else (True, set_active (last (undo_stack s))
                    (s\<lparr> redo_stack := redo_stack s @ [active_ids (state s)],
                       undo_stack := butlast (undo_stack s) \<rparr>)))"

definition redo :: "ODIE \<Rightarrow> bool \<times> ODIE" where
  "redo s =
     (if redo_stack s = [] then (False, s)
      else (True, set_active (last (redo_stack s))
                    (s\<lparr> undo_stack := undo_stack s @ [active_ids (state s)],
                       redo_stack := butlast (redo_stack s) \<rparr>)))"

definition reset :: "ODIE \<Rightarrow> ODIE" where
  "reset s =
     (let s1 = push_history s
      in s1\<lparr> state := \<lparr> active_ids = all_ids (events s1), last_sort = None \<rparr> \<rparr>)"

definition filter_country :: "ODIE \<Rightarrow> string \<Rightarrow> ODIE" where
  "filter_country s c =
     (let s1 = push_history s;
          ids = dict_get (by_country (idx s1)) c
      in set_active (intersect_sorted (sort (active_ids (state s1))) ids) s1)"

definition filter_type :: "ODIE \<Rightarrow> string \<Rightarrow> ODIE" where
  "filter_type s dtype =
     (let s1 = push_history s;
          ids = dict_get (by_type (idx s1)) dtype
      in set_active (intersect_sorted (sort (active_ids (state s1))) ids) s1)"

definition filter_year_range :: "ODIE \<Rightarrow> int \<Rightarrow> int \<Rightarrow> ODIE" where
  "filter_year_range s y1 y2 =
     (let s1 = push_history s;
          ids = year_range_ids (idx s1) y1 y2
      in set_active (intersect_sorted (sort (active_ids (state s1))) ids) s1)"


section \<open>engine.py: evaluating a query\<close>

text \<open>
  \<^verbatim>\<open>_union_sorted\<close>: both lists are sorted, merged with equal heads emitted once, and then
  a pass with the last value seen (\<open>prev\<close>) drops repeated neighbours.
\<close>

fun union_loop :: "int list \<Rightarrow> int list \<Rightarrow> int list" where
  "union_loop [] b = b"
| "union_loop a [] = a"
| "union_loop (x # a) (y # b) =
     (if x = y then x # union_loop a b
      else if x < y then x # union_loop a (y # b)
      else y # union_loop (x # a) b)"

fun uniq_loop :: "int option \<Rightarrow> int list \<Rightarrow> int list" where
  "uniq_loop prev [] = []"
| "uniq_loop prev (x # out) =
     (if prev \<noteq> Some x then x # uniq_loop (Some x) out else uniq_loop prev out)"

definition union_sorted :: "int list \<Rightarrow> int list \<Rightarrow> int list" where
  "union_sorted left_ids right_ids = uniq_loop None (union_loop (sort left_ids) (sort right_ids))"

text \<open>
  The inner function \<open>get\<close> of \<^verbatim>\<open>_make_predicate\<close>: the value of the named field, with \<open>-1\<close>
  standing in for an absent number. A name outside the listed ones goes to
  \<open>getattr(e, fname, None)\<close>. That finds the remaining data fields of the record, the bound
  method \<open>start_date_key\<close>, and the attributes every object carries, whose names all begin with
  two underscores; for any other name the record has no attribute and the result is \<open>None\<close>.
\<close>

definition opt_int :: "int option \<Rightarrow> pyval" where
  "opt_int v = (case v of None \<Rightarrow> PNone | Some n \<Rightarrow> PInt n)"

definition getattr_default :: "pyrt \<Rightarrow> DisasterEvent \<Rightarrow> string \<Rightarrow> pyval" where
  "getattr_default rt e fname =
     (if fname = ''event_id'' then PInt (event_id e)
      else if fname = ''start_month'' then opt_int (start_month e)
      else if fname = ''start_day'' then opt_int (start_day e)
      else if fname = ''end_year'' then opt_int (end_year e)
      else if fname = ''end_month'' then opt_int (end_month e)
      else if fname = ''end_day'' then opt_int (end_day e)
      else if fname = ''start_date_key'' then PObj (method_text rt e)
      else if take 2 fname = ''__'' then dunder_attr rt e fname
      else PNone)"

definition get_field :: "pyrt \<Rightarrow> string \<Rightarrow> DisasterEvent \<Rightarrow> pyval" where
  "get_field rt field e =
     (let fname = lower field
      in if fname = ''country'' then PStr (country e)
         else if fname \<in> set [''type'', ''disaster_type''] then PStr (disaster_type e)
         else if fname \<in> set [''subtype'', ''disaster_subtype''] then PStr (disaster_subtype e)
         else if fname \<in> set [''start_year'', ''year''] then PInt (start_year e)
         else if fname \<in> set [''total_deaths'', ''deaths'']
           then (case total_deaths e of Some n \<Rightarrow> PInt n | None \<Rightarrow> PInt (- 1))
         else if fname \<in> set [''total_affected'', ''affected'']
           then (case total_affected e of Some n \<Rightarrow> PInt n | None \<Rightarrow> PInt (- 1))
         else if fname \<in> set [''damage'', ''total_damage_adj_usd'', ''damages'']
           then (case total_damage_adj_usd e of Some r \<Rightarrow> PFloat r | None \<Rightarrow> PFloat (- 1))
         else if fname \<in> set [''dis_no'', ''disno''] then PStr (dis_no e)
         else getattr_default rt e fname)"

text \<open>
  \<^verbatim>\<open>_make_predicate(cmp)\<close>: an unsupported operator raises when the predicate is built, and
  so does \<open>contains\<close> when the text of its literal cannot be taken; the predicate itself
  raises when the comparison or conversion it performs does.
\<close>

definition make_predicate ::
  "pyrt \<Rightarrow> string \<Rightarrow> string \<Rightarrow> pyval \<Rightarrow> error + (DisasterEvent \<Rightarrow> error + bool)" where
  "make_predicate rt field op val =
     (if op = ''contains''
      then (case py_str rt val of Inl err \<Rightarrow> Inl err
            | Inr sv \<Rightarrow>
                (let sval = lower sv
                 in Inr (\<lambda>e. case py_str rt (get_field rt field e) of Inl err \<Rightarrow> Inl err
                              | Inr t \<Rightarrow> Inr (str_contains (lower t) sval))))
      else if op = ''=='' then Inr (\<lambda>e. Inr (py_eq (get_field rt field e) val))
      else if op = ''!='' then Inr (\<lambda>e. Inr (\<not> py_eq (get_field rt field e) val))
      else if op = ''>='' then Inr (\<lambda>e. py_ge (get_field rt field e) val)
      else if op = ''<='' then Inr (\<lambda>e. py_le (get_field rt field e) val)
      else if op = ''>'' then Inr (\<lambda>e. py_gt (get_field rt field e) val)
      else if op = ''<'' then Inr (\<lambda>e. py_lt (get_field rt field e) val)
      else Inl ValueError)"

text \<open>
  The fallback scan of \<^verbatim>\<open>_apply_cmp\<close>: the candidates in order, each looked up in \<open>events\<close>
  and tested; the first exception ends the scan.
\<close>

fun scan_loop ::
  "DisasterEvent list \<Rightarrow> (DisasterEvent \<Rightarrow> error + bool) \<Rightarrow> int list \<Rightarrow> error + int list" where
  "scan_loop evs pred [] = Inr []"
| "scan_loop evs pred (eid # rest) =
     (case py_index evs eid of Inl err \<Rightarrow> Inl err
      | Inr e \<Rightarrow>
          (case pred e of Inl err \<Rightarrow> Inl err
           | Inr b \<Rightarrow>
               (case scan_loop evs pred rest of Inl err \<Rightarrow> Inl err
                | Inr out \<Rightarrow> Inr (if b then eid # out else out))))"

definition fallback_scan :: "pyrt \<Rightarrow> ODIE \<Rightarrow> string \<Rightarrow> string \<Rightarrow> pyval \<Rightarrow> int list \<Rightarrow> error + int list" where
  "fallback_scan rt s field op val candidate_ids =
     (case make_predicate rt field op val of Inl err \<Rightarrow> Inl err
      | Inr pred \<Rightarrow>
          (case scan_loop (events s) pred candidate_ids of Inl err \<Rightarrow> Inl err
           | Inr out \<Rightarrow> Inr (sort out)))"


text \<open>
  \<^verbatim>\<open>_apply_cmp(cmp, candidate_ids)\<close>, with the three attributes of the comparison node as
  arguments. The index paths come first; a comparison they do not handle goes to the fallback
  scan.
\<close>

definition apply_cmp ::
  "pyrt \<Rightarrow> ODIE \<Rightarrow> string \<Rightarrow> string \<Rightarrow> pyval \<Rightarrow> int list \<Rightarrow> error + int list" where
  "apply_cmp rt s cfield op val candidate_ids =
     (let field = lower cfield
      in if op = ''=='' \<and> field \<in> set [''country'', ''disaster_type'']
         then (case py_str rt val of Inl err \<Rightarrow> Inl err
               | Inr key \<Rightarrow>
                   (let ids = (if field = ''country'' then dict_get (by_country (idx s)) key
                               else dict_get (by_type (idx s)) key)
                    in Inr (intersect_sorted (sort candidate_ids) ids)))
         else if field \<in> set [''start_year'', ''year''] \<and> op = ''==''
         then (case py_int rt val of Inl err \<Rightarrow> Inl err
               | Inr v \<Rightarrow>
                   Inr (intersect_sorted (sort candidate_ids) (dict_get (year_to_ids (idx s)) v)))
         else if field \<in> set [''start_year'', ''year''] \<and> op \<in> set [''>='', ''>'', ''<='', ''<'']
         then (let years = years_sorted (idx s)
               in if years = [] then Inr []
                  else (case py_int rt val of Inl err \<Rightarrow> Inl err
                        | Inr v \<Rightarrow>
                            (let lo = hd years; hi = last years;
                                 (lo, hi) = (if op = ''>='' then (v, hi)
                                             else if op = ''>'' then (v + 1, hi)
                                             else if op = ''<='' then (lo, v)
                                             else if op = ''<'' then (lo, v - 1)
                                             else (lo, hi));
                                 ids = year_range_ids (idx s) lo hi
                             in Inr (intersect_sorted (sort candidate_ids) ids))))
         else fallback_scan rt s cfield op val candidate_ids)"

text \<open>
  \<^verbatim>\<open>_eval_node(node, candidate_ids)\<close>. The node type is closed, so the final
  \<open>raise ValueError("Unknown AST node")\<close> of the source has no counterpart.
\<close>

fun eval_node :: "pyrt \<Rightarrow> ODIE \<Rightarrow> Node \<Rightarrow> int list \<Rightarrow> error + int list" where
  "eval_node rt s (And left right) candidate_ids =
     (case eval_node rt s left candidate_ids of Inl err \<Rightarrow> Inl err
      | Inr left_ids \<Rightarrow> eval_node rt s right left_ids)"
| "eval_node rt s (Or left right) candidate_ids =
     (case eval_node rt s left candidate_ids of Inl err \<Rightarrow> Inl err
      | Inr left_ids \<Rightarrow>
          (case eval_node rt s right candidate_ids of Inl err \<Rightarrow> Inl err
           | Inr right_ids \<Rightarrow> Inr (union_sorted left_ids right_ids)))"
| "eval_node rt s (Cmp field op val) candidate_ids = apply_cmp rt s field op val candidate_ids"

text \<open>
  \<^verbatim>\<open>where(expr)\<close>: the result is the outcome (an exception or normal completion) together
  with the engine as the call leaves it. The statements run in the order of the source:
  history is pushed, then the expression is parsed, then it is evaluated.
\<close>

definition where_expr :: "pyrt \<Rightarrow> ODIE \<Rightarrow> string \<Rightarrow> (error + unit) \<times> ODIE" where
  "where_expr rt s expr =
     (let s1 = push_history s
      in case parse rt expr of Inl err \<Rightarrow> (Inl err, s1)
         | Inr ast \<Rightarrow>
             (case eval_node rt s1 ast (active_ids (state s1)) of Inl err \<Rightarrow> (Inl err, s1)
              | Inr ids \<Rightarrow> (Inr (), set_active ids s1)))"


section \<open>engine.py: top-k and the benchmark\<close>

text \<open>
  \<^verbatim>\<open>_field_key(field)\<close>: the key function for a rankable field; an unknown field raises
  \<open>ValueError\<close>.
\<close>

definition field_key :: "string \<Rightarrow> error + (DisasterEvent \<Rightarrow> pyval)" where
  "field_key field =
     (let f = strip (lower field)
      in if f \<in> set [''deaths'', ''total_deaths'']
         then Inr (\<lambda>e. case total_deaths e of Some n \<Rightarrow> PInt n | None \<Rightarrow> PInt (- 1))
         else if f \<in> set [''affected'', ''total_affected'']
         then Inr (\<lambda>e. case total_affected e of Some n \<Rightarrow> PInt n | None \<Rightarrow> PInt (- 1))
         else if f \<in> set [''damage'', ''damages'', ''total_damage'', ''total_damage_adj_usd'']
         then Inr (\<lambda>e. case total_damage_adj_usd e of Some r \<Rightarrow> PFloat r | None \<Rightarrow> PFloat (- 1))
         else if f \<in> set [''year'', ''start_year''] then Inr (\<lambda>e. PInt (start_year e))
         else if f \<in> set [''date'', ''start_date''] then Inr (\<lambda>e. PInt (start_date_key e))
         else Inl ValueError)"

text \<open>
  The heap holds pairs \<open>(v, eid)\<close>, compared as Python compares tuples: by the first
  component unless the two are equal, then by the second.

  \<open>heapq\<close> is Python's library. It keeps a binary heap inside a list; the model keeps the same
  pairs in ascending order, which agrees with the heap in everything \<open>topk\<close> observes: the
  number of pairs, the least pair \<open>heap[0]\<close>, and the content once it is sorted at the end.
  \<open>heappush\<close> adds a pair, \<open>heapreplace\<close> removes the least pair and adds the new one.
\<close>

definition tuple_lt :: "pyval \<times> int \<Rightarrow> pyval \<times> int \<Rightarrow> error + bool" where
  "tuple_lt a b = (if py_eq (fst a) (fst b) then Inr (snd a < snd b) else py_lt (fst a) (fst b))"

fun heappush :: "(pyval \<times> int) list \<Rightarrow> pyval \<times> int \<Rightarrow> error + (pyval \<times> int) list" where
  "heappush [] x = Inr [x]"
| "heappush (y # heap) x =
     (case tuple_lt x y of Inl err \<Rightarrow> Inl err
      | Inr b \<Rightarrow>
          if b then Inr (x # y # heap)
          else (case heappush heap x of Inl err \<Rightarrow> Inl err | Inr heap' \<Rightarrow> Inr (y # heap')))"

definition heapreplace :: "(pyval \<times> int) list \<Rightarrow> pyval \<times> int \<Rightarrow> error + (pyval \<times> int) list" where
  "heapreplace heap x = (case heap of [] \<Rightarrow> Inl IndexError | _ # rest \<Rightarrow> heappush rest x)"

text \<open>The loop of \<^verbatim>\<open>topk\<close> over the selected IDs.\<close>

fun topk_loop ::
  "DisasterEvent list \<Rightarrow> (DisasterEvent \<Rightarrow> pyval) \<Rightarrow> int \<Rightarrow> (pyval \<times> int) list \<Rightarrow> int list
     \<Rightarrow> error + (pyval \<times> int) list" where
  "topk_loop evs key k heap [] = Inr heap"
| "topk_loop evs key k heap (eid # ids) =
     (case py_index evs eid of Inl err \<Rightarrow> Inl err
      | Inr e \<Rightarrow>
          (let v = key e
           in if v = PNone then topk_loop evs key k heap ids
              else if int (length heap) < k
              then (case heappush heap (v, eid) of Inl err \<Rightarrow> Inl err
                    | Inr heap' \<Rightarrow> topk_loop evs key k heap' ids)
              else (case heap of [] \<Rightarrow> Inl IndexError
                    | (least, _) # _ \<Rightarrow>
                        (case py_gt v least of Inl err \<Rightarrow> Inl err
                         | Inr b \<Rightarrow>
                             if b then (case heapreplace heap (v, eid) of Inl err \<Rightarrow> Inl err
                                        | Inr heap' \<Rightarrow> topk_loop evs key k heap' ids)
                             else topk_loop evs key k heap ids))))"

fun events_from_ids :: "DisasterEvent list \<Rightarrow> int list \<Rightarrow> error + DisasterEvent list" where
  "events_from_ids evs [] = Inr []"
| "events_from_ids evs (i # ids) =
     (case py_index evs i of Inl err \<Rightarrow> Inl err
      | Inr e \<Rightarrow> (case events_from_ids evs ids of Inl err \<Rightarrow> Inl err | Inr es \<Rightarrow> Inr (e # es)))"

text \<open>
  \<^verbatim>\<open>topk(k, field)\<close>: \<open>heap.sort(reverse=True)\<close> puts the pairs in descending order, which
  for the ascending list of the model is its reversal.
\<close>

definition topk :: "ODIE \<Rightarrow> int \<Rightarrow> string \<Rightarrow> error + DisasterEvent list" where
  "topk s k field =
     (case field_key field of Inl err \<Rightarrow> Inl err
      | Inr key \<Rightarrow>
          (case topk_loop (events s) key k [] (active_ids (state s)) of Inl err \<Rightarrow> Inl err
           | Inr heap \<Rightarrow> events_from_ids (events s) (map snd (rev heap))))"

text \<open>
  The two computations that \<^verbatim>\<open>bench\<close> times against each other (the timing itself is not
  modelled): the full scan \<open>naive\<close> and the index intersection \<open>indexed\<close>.
\<close>

definition bench_naive :: "ODIE \<Rightarrow> string \<Rightarrow> string \<Rightarrow> int \<Rightarrow> int \<Rightarrow> int list" where
  "bench_naive s c dtype y1 y2 =
     map event_id
       (filter (\<lambda>e. country e = c \<and> disaster_type e = dtype \<and> y1 \<le> start_year e \<and> start_year e \<le> y2)
          (events s))"

definition bench_indexed :: "ODIE \<Rightarrow> string \<Rightarrow> string \<Rightarrow> int \<Rightarrow> int \<Rightarrow> int list" where
  "bench_indexed s c dtype y1 y2 =
     (let ids = dict_get (by_country (idx s)) c;
          ids = intersect_sorted ids (dict_get (by_type (idx s)) dtype);
          ids = intersect_sorted ids (year_range_ids (idx s) y1 y2)
      in ids)"


section \<open>Invariant, reachable states and a small dataset\<close>

text \<open>
  A well-formed ID list: strictly ascending (hence free of duplicates), every entry a position
  of the event list.
\<close>

definition valid_ids :: "DisasterEvent list \<Rightarrow> int list \<Rightarrow> bool" where
  "valid_ids evs ids = (sorted_wrt (<) ids \<and> (\<forall>i \<in> set ids. 0 \<le> i \<and> i < int (length evs)))"

definition engine_inv :: "ODIE \<Rightarrow> bool" where
  "engine_inv s =
     (valid_ids (events s) (active_ids (state s))
      \<and> (\<forall>snap \<in> set (undo_stack s). valid_ids (events s) snap)
      \<and> (\<forall>snap \<in> set (redo_stack s). valid_ids (events s) snap))"

text \<open>
  The engines a session can reach: construction, followed by any sequence of the mutating
  operations. A \<open>where\<close> call counts whether it completes or raises, since the caller keeps
  using the engine afterwards.
\<close>

inductive reachable :: "pyrt \<Rightarrow> DisasterEvent list \<Rightarrow> Indices \<Rightarrow> ODIE \<Rightarrow> bool"
  for rt :: pyrt and evs :: "DisasterEvent list" and ix :: Indices where
  r_new: "reachable rt evs ix (new_engine evs ix)"
| r_reset: "reachable rt evs ix s \<Longrightarrow> reachable rt evs ix (reset s)"
| r_country: "reachable rt evs ix s \<Longrightarrow> reachable rt evs ix (filter_country s c)"
| r_type: "reachable rt evs ix s \<Longrightarrow> reachable rt evs ix (filter_type s dtype)"
| r_years: "reachable rt evs ix s \<Longrightarrow> reachable rt evs ix (filter_year_range s y1 y2)"
| r_where: "reachable rt evs ix s \<Longrightarrow> reachable rt evs ix (snd (where_expr rt s expr))"
| r_undo: "reachable rt evs ix s \<Longrightarrow> reachable rt evs ix (snd (undo s))"
| r_redo: "reachable rt evs ix s \<Longrightarrow> reachable rt evs ix (snd (redo s))"

text \<open>
  The loader numbers the events by their row: \<open>event_id\<close> is the position in the list.
\<close>

definition ids_are_positions :: "DisasterEvent list \<Rightarrow> bool" where
  "ids_are_positions evs = (map event_id evs = all_ids evs)"

text \<open>A three-event dataset and a runtime for the examples.\<close>

definition mk_event :: "int \<Rightarrow> string \<Rightarrow> string \<Rightarrow> int \<Rightarrow> int option \<Rightarrow> DisasterEvent" where
  "mk_event i c t y d =
     \<lparr> event_id = i, dis_no = [], country = c, disaster_type = t, disaster_subtype = [],
       start_year = y, start_month = None, start_day = None,
       end_year = None, end_month = None, end_day = None,
       total_deaths = d, total_affected = None, total_damage_adj_usd = None \<rparr>"

definition sample_events :: "DisasterEvent list" where
  "sample_events =
     [mk_event 0 ''India'' ''Flood'' 2001 (Some 10),
      mk_event 1 ''Nepal'' ''Earthquake'' 2015 None,
      mk_event 2 ''India'' ''Earthquake'' 2001 (Some 5)]"

definition sample_engine :: ODIE where
  "sample_engine = new_engine sample_events (build_indices sample_events)"

definition plain_rt :: pyrt where
  "plain_rt = \<lparr> float_of_str = (\<lambda>s. 0), str_of_float = (\<lambda>r. []),
                int_of_str = (\<lambda>s. Inl ValueError), unicode_escape = Inr,
                dunder_attr = (\<lambda>e name. PNone), method_text = (\<lambda>e. []) \<rparr>"

text \<open>
  A second dataset, numbered by position like the first. The name of its first country has a
  letter outside ASCII (\<open>u\<close> with diaeresis, code point 252); the name of its second country
  is a numeral. \<open>accent_query\<close> is the query \<open>country == '...'\<close> with the first country's
  name between the quotes.
\<close>

definition accent_country :: string where
  "accent_country = ''T'' @ [CHR 0xFC] @ ''rkiye''"

definition accent_events :: "DisasterEvent list" where
  "accent_events =
     [mk_event 0 accent_country ''Flood'' 2001 (Some 10),
      mk_event 1 ''5'' ''Flood'' 2002 None]"

definition accent_engine :: ODIE where
  "accent_engine = new_engine accent_events (build_indices accent_events)"

definition accent_query :: string where
  "accent_query = ''country == '' @ [CHR 0x27] @ accent_country @ [CHR 0x27]"


section \<open>The grammar as a printer\<close>

text \<open>
  The precedence and associativity the grammar of the query language intends
  (\<open>expr := term (OR term)*\<close>, \<open>term := factor (AND factor)*\<close>,
  \<open>factor := comparison | "(" expr ")"\<close>), written as a printer from trees to tokens:
  \<open>unparse p n\<close> prints \<open>n\<close> in a context of level \<open>p\<close> (0 for an expression, 1 for a term,
  2 for a factor) and puts parentheses only where the level requires them: around an \<open>Or\<close>
  below an \<open>And\<close>, and around the right operand of an operator of the same kind. It is the
  reference against which the parser is checked; it is not part of the repository.
\<close>

definition op_token :: "string \<Rightarrow> Token" where
  "op_token op = (if op = ''contains'' then Token CONTAINS ''contains'' else Token OP op)"

definition value_token :: "pyval \<Rightarrow> Token" where
  "value_token v = (case v of PInt i \<Rightarrow> Token NUMBER (str_of_int i) | PStr s \<Rightarrow> Token IDENT s
                    | PFloat r \<Rightarrow> Token IDENT [] | PNone \<Rightarrow> Token IDENT []
                    | PObj t \<Rightarrow> Token IDENT [])"

definition paren :: "bool \<Rightarrow> Token list \<Rightarrow> Token list" where
  "paren b ts = (if b then Token LPAREN ''('' # ts @ [Token RPAREN '')''] else ts)"

fun unparse :: "nat \<Rightarrow> Node \<Rightarrow> Token list" where
  "unparse p (Cmp field op val) = [Token IDENT field, op_token op, value_token val]"
| "unparse p (And l r) = paren (1 < p) (unparse 1 l @ Token AND ''AND'' # unparse 2 r)"
| "unparse p (Or l r) = paren (0 < p) (unparse 0 l @ Token OR ''OR'' # unparse 1 r)"

text \<open>
  The trees the printer covers: every literal is a string or an integer whose decimal text
  stays within the conversion limit (a string is printed as a bare word; a float would need
  the runtime's number formatting).
\<close>

fun printable :: "Node \<Rightarrow> bool" where
  "printable (Cmp field op val) =
     (case val of
        PInt i \<Rightarrow> length (filter is_digit (str_of_int i)) \<le> int_max_str_digits
      | PStr s \<Rightarrow> True
      | _ \<Rightarrow> False)"
| "printable (And l r) = (printable l \<and> printable r)"
| "printable (Or l r) = (printable l \<and> printable r)"


section \<open>Properties of merge sort\<close>

lemma merge_sort_short: "length arr \<le> 1 \<Longrightarrow> merge_sort key reverse arr = arr"
  by (simp add: merge_sort.simps)

lemma merge_sort_split:
  "\<not> length arr \<le> 1 \<Longrightarrow>
   merge_sort key reverse arr =
     merge key reverse (merge_sort key reverse (take (length arr div 2) arr))
                       (merge_sort key reverse (drop (length arr div 2) arr))"
  by (subst merge_sort.simps) (simp add: Let_def)

lemma set_merge: "set (merge key reverse xs ys) = set xs \<union> set ys"
  by (induction key reverse xs ys rule: merge.induct) (auto simp: Let_def)

lemma sorted_merge_asc:
  "sorted (map key xs) \<Longrightarrow> sorted (map key ys) \<Longrightarrow> sorted (map key (merge key False xs ys))"
  by (induction key "False" xs ys rule: merge.induct) (auto simp: Let_def set_merge)

lemma sorted_merge_sort_asc':
  "\<not> reverse \<Longrightarrow> sorted (map key (merge_sort key reverse arr))"
proof (induction key reverse arr rule: merge_sort.induct)
  case (1 key reverse arr)
  show ?case
  proof (cases "length arr \<le> 1")
    case True
    then show ?thesis
      by (cases arr) (auto simp: merge_sort_short)
  next
    case False
    then show ?thesis
      using "1.IH" "1.prems" by (simp add: merge_sort_split sorted_merge_asc)
  qed
qed

lemma sorted_merge_sort_asc: "sorted (map key (merge_sort key False arr))"
  by (simp add: sorted_merge_sort_asc')

lemma filter_key_above:
  "sorted (map key xs) \<Longrightarrow> xs \<noteq> [] \<Longrightarrow> k < key (hd xs) \<Longrightarrow> filter (\<lambda>z. key z = k) xs = []"
  by (cases xs) (auto simp: filter_empty_conv)

lemma filter_merge_asc:
  "sorted (map key xs) \<Longrightarrow> sorted (map key ys) \<Longrightarrow>
   filter (\<lambda>z. key z = k) (merge key False xs ys)
     = filter (\<lambda>z. key z = k) xs @ filter (\<lambda>z. key z = k) ys"
proof (induction key "False" xs ys rule: merge.induct)
  case (3 key x left y right)
  show ?case
  proof (cases "key x \<le> key y")
    case True
    then show ?thesis using 3 by (simp add: Let_def)
  next
    case False
    then have yx: "key y < key x" by simp
    have ih: "filter (\<lambda>z. key z = k) (merge key False (x # left) right)
                = filter (\<lambda>z. key z = k) (x # left) @ filter (\<lambda>z. key z = k) right"
      using 3 False by (simp add: Let_def)
    show ?thesis
    proof (cases "key y = k")
      case True
      have "filter (\<lambda>z. key z = k) (x # left) = []"
        using filter_key_above [of key "x # left" k] "3.prems"(1) yx True by simp
      then show ?thesis using False True ih by (simp add: Let_def)
    next
      case False
      then show ?thesis using \<open>\<not> key x \<le> key y\<close> ih by (simp add: Let_def)
    qed
  qed
qed simp_all

text \<open>
  In ascending direction the sort is stable: for every key value, the elements carrying it come
  out in the order they went in.
\<close>

lemma merge_sort_stable_ascending':
  "\<not> reverse \<Longrightarrow>
   filter (\<lambda>z. key z = k) (merge_sort key reverse arr) = filter (\<lambda>z. key z = k) arr"
proof (induction key reverse arr rule: merge_sort.induct)
  case (1 key reverse arr)
  then have [simp]: "reverse = False" by simp
  show ?case
  proof (cases "length arr \<le> 1")
    case True
    then show ?thesis by (simp add: merge_sort_short)
  next
    case False
    let ?m = "length arr div 2"
    have "filter (\<lambda>z. key z = k) (merge_sort key False arr)
            = filter (\<lambda>z. key z = k) (take ?m arr) @ filter (\<lambda>z. key z = k) (drop ?m arr)"
      using False "1.IH"
      by (simp add: merge_sort_split filter_merge_asc sorted_merge_sort_asc)
    also have "\<dots> = filter (\<lambda>z. key z = k) (take ?m arr @ drop ?m arr)"
      by (simp del: append_take_drop_id)
    finally show ?thesis by simp
  qed
qed

lemma merge_sort_stable_ascending:
  "filter (\<lambda>z. key z = k) (merge_sort key False arr) = filter (\<lambda>z. key z = k) arr"
  by (simp add: merge_sort_stable_ascending')

text \<open>
  Claim C3 (stability of \<open>merge_sort\<close> in both directions). In descending direction the merge
  takes the left element only when its key is strictly greater, so on a tie the element of the
  right half is emitted first: two records with the same key come out in the opposite order.
  The source documents the function as a stable merge sort.
\<close>

theorem merge_sort_descending_swaps_ties:
  "merge_sort fst True [(1::int, ''a''), (1, ''b'')] = [(1, ''b''), (1, ''a'')]"
  by (simp add: merge_sort.simps)

section \<open>Properties of the sorted-list operations\<close>

lemma set_intersect_sorted_subset: "set (intersect_sorted a b) \<subseteq> set a"
  by (induction a b rule: intersect_sorted.induct) auto

lemma strict_intersect_sorted:
  "sorted_wrt (<) a \<Longrightarrow> sorted_wrt (<) (intersect_sorted a b)"
proof (induction a b rule: intersect_sorted.induct)
  case (3 x a y b)
  have "set (intersect_sorted a b) \<subseteq> set a" by (rule set_intersect_sorted_subset)
  then show ?case using 3 by (auto simp: subset_iff)
qed simp_all

lemma strict_sort: "distinct xs \<Longrightarrow> sorted_wrt (<) (sort (xs :: int list))"
  by (simp add: strict_sorted_iff)

lemma sort_strict_id: "sorted_wrt (<) (xs :: int list) \<Longrightarrow> sort xs = xs"
  by (simp add: strict_sorted_iff sorted_sort_id)

lemma set_union_loop: "set (union_loop a b) = set a \<union> set b"
  by (induction a b rule: union_loop.induct) auto

lemma strict_union_loop:
  "sorted_wrt (<) a \<Longrightarrow> sorted_wrt (<) b \<Longrightarrow> sorted_wrt (<) (union_loop a b)"
  by (induction a b rule: union_loop.induct) (auto simp: set_union_loop)

lemma uniq_loop_strict_id:
  "sorted_wrt (<) xs \<Longrightarrow> (\<forall>p. prev = Some p \<longrightarrow> (\<forall>x \<in> set xs. p < x)) \<Longrightarrow> uniq_loop prev xs = xs"
  by (induction xs arbitrary: prev) auto

lemma set_intersect_sorted:
  "sorted_wrt (<) a \<Longrightarrow> sorted_wrt (<) b \<Longrightarrow> set (intersect_sorted a b) = set a \<inter> set b"
proof (induction a b rule: intersect_sorted.induct)
  case (3 x a y b)
  have xa: "\<forall>z \<in> set a. x < z" and yb: "\<forall>z \<in> set b. y < z"
    and sa: "sorted_wrt (<) a" and sb: "sorted_wrt (<) b"
    using "3.prems" by simp_all
  show ?case
  proof (cases "x = y")
    case True
    then have "set (intersect_sorted a b) = set a \<inter> set b" using 3 sa sb by simp
    moreover have "x \<notin> set b" "y \<notin> set a" using True xa yb by auto
    ultimately show ?thesis using True by auto
  next
    case False
    show ?thesis
    proof (cases "x < y")
      case True
      then have ih: "set (intersect_sorted a (y # b)) = set a \<inter> set (y # b)"
        using 3 False sa by simp
      have "x \<notin> set (y # b)" using True yb by auto
      then show ?thesis using False True ih by auto
    next
      case gt: False
      then have ih: "set (intersect_sorted (x # a) b) = set (x # a) \<inter> set b"
        using 3 False sb by simp
      have "y \<notin> set (x # a)" using gt False xa by auto
      then show ?thesis using False gt ih by auto
    qed
  qed
qed simp_all

lemma union_sorted_strict:
  assumes "sorted_wrt (<) l" "sorted_wrt (<) r"
  shows "union_sorted l r = union_loop l r"
proof -
  have s: "sorted_wrt (<) (union_loop l r)" using assms by (rule strict_union_loop)
  have "uniq_loop None (union_loop l r) = union_loop l r"
    using s by (rule uniq_loop_strict_id) simp
  then show ?thesis
    using assms by (simp add: union_sorted_def sort_strict_id)
qed

lemma strict_union_sorted:
  "sorted_wrt (<) l \<Longrightarrow> sorted_wrt (<) r \<Longrightarrow> sorted_wrt (<) (union_sorted l r)"
  by (simp add: union_sorted_strict strict_union_loop)

lemma set_union_sorted:
  "sorted_wrt (<) l \<Longrightarrow> sorted_wrt (<) r \<Longrightarrow> set (union_sorted l r) = set l \<union> set r"
  by (simp add: union_sorted_strict set_union_loop)

section \<open>The sample dataset evaluated\<close>

lemma sample_indices:
  "build_indices sample_events =
     \<lparr> by_country = [(''India'', [0, 2]), (''Nepal'', [1])],
       by_type = [(''Flood'', [0]), (''Earthquake'', [1, 2])],
       year_to_ids = [(2001, [0, 2]), (2015, [1])],
       years_sorted = [2001, 2015] \<rparr>"
  by (simp add: build_indices_def sample_events_def mk_event_def sort_buckets_def)

lemma sample_all_ids: "all_ids sample_events = [0, 1, 2]"
  by (simp add: all_ids_def sample_events_def upt_rec)

lemma sample_engine_fields:
  "events sample_engine = sample_events"
  "active_ids (state sample_engine) = [0, 1, 2]"
  "undo_stack sample_engine = []"
  "redo_stack sample_engine = []"
  by (simp_all add: sample_engine_def new_engine_def sample_all_ids)

lemma sample_filter_country:
  "active_ids (state (filter_country sample_engine ''India'')) = [0, 2]"
  by (simp add: filter_country_def push_history_def set_active_def Let_def sample_engine_def
        new_engine_def sample_all_ids sample_indices dict_get_def)


section \<open>Undo and redo\<close>

lemma round_trip_after_push:
  assumes u: "undo_stack s' = undo_stack s @ [active_ids (state s)]" and r: "redo_stack s' = []"
  shows "fst (undo s')"
    and "active_ids (state (snd (undo s'))) = active_ids (state s)"
    and "undo_stack (snd (undo s')) = undo_stack s"
    and "redo (snd (undo s')) = (True, s')"
proof -
  show "fst (undo s')" using u by (simp add: undo_def)
  show "active_ids (state (snd (undo s'))) = active_ids (state s)"
    using u by (simp add: undo_def set_active_def)
  show "undo_stack (snd (undo s')) = undo_stack s"
    using u by (simp add: undo_def set_active_def)
  show "redo (snd (undo s')) = (True, s')"
    using u r by (simp add: undo_def redo_def set_active_def)
qed

lemma mutating_ops_push:
  assumes "s' = reset s \<or> s' = filter_country s c \<or> s' = filter_type s dtype
           \<or> s' = filter_year_range s y1 y2 \<or> where_expr rt s expr = (Inr (), s')"
  shows "undo_stack s' = undo_stack s @ [active_ids (state s)] \<and> redo_stack s' = []"
  using assms
  by (auto simp: reset_def filter_country_def filter_type_def filter_year_range_def where_expr_def
        push_history_def set_active_def Let_def split: sum.splits)

text \<open>
  Claim C8 (undo/redo round trip and underflow). Let \<open>s'\<close> be the engine after a mutating
  operation on \<open>s\<close>: \<open>reset\<close>, one of the three filters, or a \<open>where\<close> that completed.
  Then \<open>undo\<close> succeeds and brings back the ID list of \<open>s\<close> exactly (and its undo stack),
  and \<open>redo\<close> right after it succeeds and gives back \<open>s'\<close> itself. With an empty undo stack
  \<open>undo\<close> returns \<open>False\<close> and the engine unchanged; likewise \<open>redo\<close> with an empty redo
  stack.
\<close>

theorem undo_redo_round_trip:
  "(s' = reset s \<or> s' = filter_country s c \<or> s' = filter_type s dtype
      \<or> s' = filter_year_range s y1 y2 \<or> where_expr rt s expr = (Inr (), s')
    \<longrightarrow> fst (undo s')
        \<and> active_ids (state (snd (undo s'))) = active_ids (state s)
        \<and> undo_stack (snd (undo s')) = undo_stack s
        \<and> redo (snd (undo s')) = (True, s'))
   \<and> (undo_stack s = [] \<longrightarrow> undo s = (False, s))
   \<and> (redo_stack s = [] \<longrightarrow> redo s = (False, s))"
proof (intro conjI impI)
  assume a: "s' = reset s \<or> s' = filter_country s c \<or> s' = filter_type s dtype
      \<or> s' = filter_year_range s y1 y2 \<or> where_expr rt s expr = (Inr (), s')"
  have p: "undo_stack s' = undo_stack s @ [active_ids (state s)]" "redo_stack s' = []"
    using mutating_ops_push [OF a] by simp_all
  show "fst (undo s')" using p by (rule round_trip_after_push)
  show "active_ids (state (snd (undo s'))) = active_ids (state s)"
    using p by (rule round_trip_after_push)
  show "undo_stack (snd (undo s')) = undo_stack s" using p by (rule round_trip_after_push)
  show "redo (snd (undo s')) = (True, s')" using p by (rule round_trip_after_push)
next
  assume "undo_stack s = []" then show "undo s = (False, s)" by (simp add: undo_def)
next
  assume "redo_stack s = []" then show "redo s = (False, s)" by (simp add: redo_def)
qed

theorem undo_redo_round_trip_witness:
  "active_ids (state (filter_country sample_engine ''India'')) = [0, 2]
   \<and> fst (undo (filter_country sample_engine ''India''))
   \<and> active_ids (state (snd (undo (filter_country sample_engine ''India'')))) = [0, 1, 2]
   \<and> redo (snd (undo (filter_country sample_engine ''India'')))
        = (True, filter_country sample_engine ''India'')
   \<and> undo sample_engine = (False, sample_engine)
   \<and> redo sample_engine = (False, sample_engine)"
  using undo_redo_round_trip [of "filter_country sample_engine ''India''" sample_engine "''India''"]
  by (simp add: sample_engine_fields sample_filter_country)

section \<open>Query evaluation\<close>

lemma index_path_result:
  assumes "distinct cands"
  shows "sorted_wrt (<) (intersect_sorted (sort cands) ids)"
    and "set (intersect_sorted (sort cands) ids) \<subseteq> set cands"
proof -
  show "sorted_wrt (<) (intersect_sorted (sort cands) ids)"
    using assms by (intro strict_intersect_sorted strict_sort)
  show "set (intersect_sorted (sort cands) ids) \<subseteq> set cands"
    using set_intersect_sorted_subset [of "sort cands" ids] by simp
qed

lemma scan_loop_subset: "scan_loop evs pred cands = Inr out \<Longrightarrow> set out \<subseteq> set cands"
  by (induction cands arbitrary: out) (auto split: sum.splits if_splits)

lemma scan_loop_distinct:
  "scan_loop evs pred cands = Inr out \<Longrightarrow> distinct cands \<Longrightarrow> distinct out"
proof (induction cands arbitrary: out)
  case (Cons eid rest)
  then obtain e b out' where
    r: "scan_loop evs pred rest = Inr out'" and o: "out = (if b then eid # out' else out')"
    by (auto split: sum.splits)
  have "distinct out'" "set out' \<subseteq> set rest"
    using Cons.IH [OF r] Cons.prems(2) scan_loop_subset [OF r] by simp_all
  then show ?case using o Cons.prems(2) by auto
qed simp

lemma fallback_scan_result:
  assumes "fallback_scan rt s field op val cands = Inr out" "distinct cands"
  shows "sorted_wrt (<) out \<and> set out \<subseteq> set cands"
proof -
  obtain pred raw where
    r: "scan_loop (events s) pred cands = Inr raw" and o: "out = sort raw"
    using assms(1) by (auto simp: fallback_scan_def split: sum.splits)
  have "distinct raw" "set raw \<subseteq> set cands"
    using scan_loop_distinct [OF r assms(2)] scan_loop_subset [OF r] by simp_all
  then show ?thesis using o by (simp add: strict_sort)
qed

lemma apply_cmp_cases:
  assumes "apply_cmp rt s field op val cands = Inr out"
  shows "(\<exists>ids. out = intersect_sorted (sort cands) ids) \<or> out = []
         \<or> fallback_scan rt s field op val cands = Inr out"
  using assms
  apply (simp only: apply_cmp_def Let_def split: if_splits sum.splits prod.splits)
  apply (simp_all only: sum.inject sum.distinct)
  apply blast+
  done

lemma apply_cmp_result:
  assumes "apply_cmp rt s field op val cands = Inr out" "distinct cands"
  shows "sorted_wrt (<) out \<and> set out \<subseteq> set cands"
proof -
  from apply_cmp_cases [OF assms(1)]
  consider (ix) ids where "out = intersect_sorted (sort cands) ids"
    | (empty) "out = []"
    | (scan) "fallback_scan rt s field op val cands = Inr out"
    by blast
  then show ?thesis
  proof cases
    case ix
    then show ?thesis using index_path_result [OF assms(2), of ids] by simp
  next
    case empty
    then show ?thesis by simp
  next
    case scan
    then show ?thesis using assms(2) by (rule fallback_scan_result)
  qed
qed

lemma eval_node_result:
  "eval_node rt s node cands = Inr out \<Longrightarrow> distinct cands
   \<Longrightarrow> sorted_wrt (<) out \<and> set out \<subseteq> set cands"
proof (induction node arbitrary: cands out)
  case (And l r)
  then obtain left_ids where
    l: "eval_node rt s l cands = Inr left_ids" and r: "eval_node rt s r left_ids = Inr out"
    by (auto split: sum.splits)
  have li: "sorted_wrt (<) left_ids" "set left_ids \<subseteq> set cands"
    using And.IH(1) [OF l And.prems(2)] by simp_all
  then have "distinct left_ids" by (simp add: strict_sorted_iff)
  then show ?case using And.IH(2) [OF r] li by auto
next
  case (Or l r)
  then obtain left_ids right_ids where
    l: "eval_node rt s l cands = Inr left_ids" and r: "eval_node rt s r cands = Inr right_ids"
    and o: "out = union_sorted left_ids right_ids"
    by (auto split: sum.splits)
  have li: "sorted_wrt (<) left_ids" "set left_ids \<subseteq> set cands"
    using Or.IH(1) [OF l Or.prems(2)] by simp_all
  have ri: "sorted_wrt (<) right_ids" "set right_ids \<subseteq> set cands"
    using Or.IH(2) [OF r Or.prems(2)] by simp_all
  show ?case
    using o li ri by (simp add: strict_union_sorted set_union_sorted)
next
  case (Cmp field op val)
  then show ?case using apply_cmp_result by simp
qed


lemma sample_eval_deaths:
  "eval_node plain_rt sample_engine (Cmp ''deaths'' ''>'' (PInt 7)) [0, 1, 2] = Inr [0]"
  by code_simp








section \<open>The selection invariant\<close>

lemma valid_all_ids: "valid_ids evs (all_ids evs)"
  by (auto simp: valid_ids_def all_ids_def sorted_wrt_map)

lemma valid_intersect:
  assumes "valid_ids evs a"
  shows "valid_ids evs (intersect_sorted (sort a) ids)"
proof -
  have d: "distinct a" using assms by (simp add: valid_ids_def strict_sorted_iff)
  show ?thesis
    using index_path_result [OF d, of ids] assms by (auto simp: valid_ids_def)
qed

lemma valid_eval_node:
  assumes "valid_ids evs a" "eval_node rt s node a = Inr out"
  shows "valid_ids evs out"
proof -
  have d: "distinct a" using assms(1) by (simp add: valid_ids_def strict_sorted_iff)
  show ?thesis
    using eval_node_result [OF assms(2) d] assms(1) by (auto simp: valid_ids_def)
qed

lemma inv_push_history: "engine_inv s \<Longrightarrow> engine_inv (push_history s)"
  by (auto simp: engine_inv_def push_history_def)

lemma inv_set_active:
  "engine_inv s \<Longrightarrow> valid_ids (events s) ids \<Longrightarrow> engine_inv (set_active ids s)"
  by (auto simp: engine_inv_def set_active_def)

lemma events_push_history [simp]: "events (push_history s) = events s"
  by (simp add: push_history_def)

lemma events_set_active [simp]: "events (set_active ids s) = events s"
  by (simp add: set_active_def)

lemma active_push_history [simp]: "active_ids (state (push_history s)) = active_ids (state s)"
  by (simp add: push_history_def)

lemma inv_new_engine: "engine_inv (new_engine evs ix) \<and> events (new_engine evs ix) = evs"
  by (simp add: engine_inv_def new_engine_def valid_all_ids)

lemma inv_reset: "engine_inv s \<Longrightarrow> engine_inv (reset s) \<and> events (reset s) = events s"
  using inv_push_history [of s]
  by (auto simp: reset_def Let_def engine_inv_def valid_all_ids)

lemma inv_filter:
  assumes "engine_inv s"
  shows "engine_inv (set_active (intersect_sorted (sort (active_ids (state (push_history s)))) ids)
           (push_history s))"
proof -
  have p: "engine_inv (push_history s)" using assms by (rule inv_push_history)
  then have "valid_ids (events (push_history s)) (active_ids (state (push_history s)))"
    by (simp add: engine_inv_def)
  then show ?thesis using p by (intro inv_set_active valid_intersect)
qed

lemma inv_filter_country:
  "engine_inv s \<Longrightarrow> engine_inv (filter_country s c) \<and> events (filter_country s c) = events s"
  using inv_filter [of s] by (simp add: filter_country_def Let_def)

lemma inv_filter_type:
  "engine_inv s \<Longrightarrow> engine_inv (filter_type s t) \<and> events (filter_type s t) = events s"
  using inv_filter [of s] by (simp add: filter_type_def Let_def)

lemma inv_filter_year_range:
  "engine_inv s \<Longrightarrow> engine_inv (filter_year_range s y1 y2)
     \<and> events (filter_year_range s y1 y2) = events s"
  using inv_filter [of s] by (simp add: filter_year_range_def Let_def)

lemma inv_where:
  assumes "engine_inv s"
  shows "engine_inv (snd (where_expr rt s expr)) \<and> events (snd (where_expr rt s expr)) = events s"
proof -
  have p: "engine_inv (push_history s)" using assms by (rule inv_push_history)
  then have v: "valid_ids (events (push_history s)) (active_ids (state (push_history s)))"
    by (simp add: engine_inv_def)
  show ?thesis
  proof (cases "parse rt expr")
    case (Inl err)
    then show ?thesis using p by (simp add: where_expr_def Let_def)
  next
    case (Inr ast)
    show ?thesis
    proof (cases "eval_node rt (push_history s) ast (active_ids (state (push_history s)))")
      case (Inl err)
      then show ?thesis using p Inr by (simp add: where_expr_def Let_def)
    next
      case res: (Inr ids)
      have "valid_ids (events (push_history s)) ids" using v res by (rule valid_eval_node)
      then have "engine_inv (set_active ids (push_history s))" using p by (intro inv_set_active)
      then show ?thesis using Inr res by (simp add: where_expr_def Let_def)
    qed
  qed
qed

lemma inv_undo: "engine_inv s \<Longrightarrow> engine_inv (snd (undo s)) \<and> events (snd (undo s)) = events s"
  by (auto simp: undo_def engine_inv_def set_active_def dest: in_set_butlastD)

lemma inv_redo: "engine_inv s \<Longrightarrow> engine_inv (snd (redo s)) \<and> events (snd (redo s)) = events s"
  by (auto simp: redo_def engine_inv_def set_active_def dest: in_set_butlastD)

lemma reachable_inv: "reachable rt evs ix s \<Longrightarrow> engine_inv s \<and> events s = evs"
proof (induction rule: reachable.induct)
  case r_new
  show ?case by (rule inv_new_engine)
next
  case (r_reset s)
  then show ?case using inv_reset [of s] by simp
next
  case (r_country s c)
  then show ?case using inv_filter_country [of s c] by simp
next
  case (r_type s dtype)
  then show ?case using inv_filter_type [of s dtype] by simp
next
  case (r_years s y1 y2)
  then show ?case using inv_filter_year_range [of s y1 y2] by simp
next
  case (r_where s expr)
  then show ?case using inv_where [of s rt expr] by simp
next
  case (r_undo s)
  then show ?case using inv_undo [of s] by simp
next
  case (r_redo s)
  then show ?case using inv_redo [of s] by simp
qed

text \<open>
  Claim C10 (invariant of the selection). In every engine reachable from construction by
  \<open>reset\<close>, the three filters, \<open>where\<close>, \<open>undo\<close> and \<open>redo\<close>, the selected IDs are strictly
  ascending, free of duplicates, and positions of the event list, and the event list is the
  one the engine was built with.
\<close>

theorem selection_invariant:
  "reachable rt evs ix s \<Longrightarrow>
   sorted_wrt (<) (active_ids (state s)) \<and> distinct (active_ids (state s))
   \<and> (\<forall>i \<in> set (active_ids (state s)). 0 \<le> i \<and> i < int (length (events s)))
   \<and> events s = evs"
  using reachable_inv [of rt evs ix s]
  by (auto simp: engine_inv_def valid_ids_def strict_sorted_iff)

theorem selection_invariant_witness:
  "reachable plain_rt sample_events (build_indices sample_events)
     (filter_country sample_engine ''India'')
   \<and> active_ids (state (filter_country sample_engine ''India'')) = [0, 2]
   \<and> sorted_wrt (<) (active_ids (state (filter_country sample_engine ''India'')))
   \<and> distinct (active_ids (state (filter_country sample_engine ''India'')))
   \<and> events (filter_country sample_engine ''India'') = sample_events"
proof -
  have r: "reachable plain_rt sample_events (build_indices sample_events)
             (filter_country sample_engine ''India'')"
    unfolding sample_engine_def by (intro reachable.intros)
  show ?thesis
    using r selection_invariant [OF r] by (auto simp: sample_filter_country)
qed

section \<open>A malformed query and the history\<close>

lemma parse_missing_value: "parse rt ''year >='' = Inl ParseError"
  by code_simp

text \<open>
  Claim C2 (a malformed query leaves the selection state unchanged). The query \<open>year >=\<close> is
  rejected with a \<open>ParseError\<close>, and the ID list stays as it was, but \<open>where\<close> has pushed the
  history before parsing: the engine it leaves behind has one more snapshot on the undo stack
  and an empty redo stack. In the engine obtained from the sample by filtering and undoing,
  the redo stack \<open>[[0, 2]]\<close> is lost and the undo stack grows from empty to \<open>[[0, 1, 2]]\<close>.
\<close>

theorem where_malformed_changes_history:
  "where_expr rt s ''year >=''
     = (Inl ParseError, s\<lparr> undo_stack := undo_stack s @ [active_ids (state s)], redo_stack := [] \<rparr>)
   \<and> redo_stack (snd (undo (filter_country sample_engine ''India''))) = [[0, 2]]
   \<and> redo_stack (snd (where_expr rt (snd (undo (filter_country sample_engine ''India''))) ''year >=''))
       = []
   \<and> undo_stack (snd (undo (filter_country sample_engine ''India''))) = []
   \<and> undo_stack (snd (where_expr rt (snd (undo (filter_country sample_engine ''India''))) ''year >=''))
       = [[0, 1, 2]]"
  by (simp add: where_expr_def parse_missing_value push_history_def Let_def undo_def set_active_def
        filter_country_def sample_engine_fields sample_filter_country sample_indices dict_get_def
        sample_engine_def new_engine_def sample_all_ids)


section \<open>Comparisons on a field the record does not have\<close>

lemma scan_first_raises:
  "py_index evs eid = Inr e \<Longrightarrow> pred e = Inl err \<Longrightarrow> scan_loop evs pred (eid # rest) = Inl err"
  by simp

lemma get_field_None_not_indexed:
  assumes "get_field rt field e = PNone"
  shows "lower field \<notin> set [''country'', ''disaster_type'', ''start_year'', ''year'']"
  using assms by (auto simp: get_field_def Let_def split: if_splits)

lemma unknown_field_ordering_raises:
  assumes g: "get_field rt field e = PNone"
    and op: "op \<in> set [''>='', ''<='', ''>'', ''<'']"
    and e: "py_index (events s) eid = Inr e"
  shows "apply_cmp rt s field op val (eid # rest) = Inl TypeError"
proof -
  have f: "lower field \<noteq> ''country''" "lower field \<noteq> ''disaster_type''"
    "lower field \<noteq> ''start_year''" "lower field \<noteq> ''year''"
    using get_field_None_not_indexed [OF g] by simp_all
  have a: "apply_cmp rt s field op val (eid # rest) = fallback_scan rt s field op val (eid # rest)"
    using f by (simp add: apply_cmp_def Let_def)
  obtain pred where p: "make_predicate rt field op val = Inr pred" and r: "pred e = Inl TypeError"
    using op g by (auto simp: make_predicate_def py_ge_def py_gt_def)
  show ?thesis
    using a p r e by (simp add: fallback_scan_def)
qed

text \<open>
  Claim C4 (an unknown field never makes evaluation fail). For the field \<open>foo\<close>, which the
  record does not have, the lookup gives \<open>None\<close>. With \<open>==\<close>, \<open>!=\<close> and \<open>contains\<close> the
  comparison selects or rejects each record, but each of the four ordering operators compares
  \<open>None\<close> with the literal and raises \<open>TypeError\<close>, so the query \<open>foo > 5\<close> fails.
\<close>

theorem where_unknown_field_ordering_raises:
  "fst (where_expr rt sample_engine ''foo > 5'') = Inl TypeError
   \<and> eval_node rt sample_engine (Cmp ''foo'' ''>'' (PInt 5)) [0, 1, 2] = Inl TypeError
   \<and> eval_node rt sample_engine (Cmp ''foo'' ''>='' (PInt 5)) [0, 1, 2] = Inl TypeError
   \<and> eval_node rt sample_engine (Cmp ''foo'' ''<'' (PInt 5)) [0, 1, 2] = Inl TypeError
   \<and> eval_node rt sample_engine (Cmp ''foo'' ''<='' (PInt 5)) [0, 1, 2] = Inl TypeError
   \<and> eval_node rt sample_engine (Cmp ''foo'' ''=='' (PInt 5)) [0, 1, 2] = Inr []
   \<and> eval_node rt sample_engine (Cmp ''foo'' ''!='' (PInt 5)) [0, 1, 2] = Inr [0, 1, 2]
   \<and> eval_node rt sample_engine (Cmp ''foo'' ''contains'' (PStr ''on'')) [0, 1, 2] = Inr [0, 1, 2]"
  by code_simp


section \<open>Top-k and absent values\<close>

text \<open>
  The key functions replace an absent number by \<open>-1\<close>, so the test \<open>v is None\<close> in the loop
  of \<open>topk\<close> never holds.
\<close>

lemma field_key_never_None: "field_key field = Inr key \<Longrightarrow> key e \<noteq> PNone"
  by (auto simp: field_key_def Let_def split: if_splits option.splits)

text \<open>
  Claim C1 (top-k returns \<open>min(k, number of records with a value)\<close> records and skips records
  without one). Event 1 of the sample has no death count. Asking for the top 3 by deaths
  returns all three events, the one without a value last; with only event 1 selected, the
  top 1 is that event; and \<open>k = 0\<close> on a non-empty selection raises \<open>IndexError\<close> instead of
  returning the empty list.
\<close>

theorem topk_keeps_records_without_value:
  "total_deaths (sample_events ! 1) = None
   \<and> topk sample_engine 3 ''deaths'' = Inr [sample_events ! 0, sample_events ! 2, sample_events ! 1]
   \<and> active_ids (state (filter_country sample_engine ''Nepal'')) = [1]
   \<and> topk (filter_country sample_engine ''Nepal'') 1 ''deaths'' = Inr [sample_events ! 1]
   \<and> topk sample_engine 0 ''deaths'' = Inl IndexError"
  by code_simp

section \<open>The parser\<close>

text \<open>
  Every successful sub-parse consumes input, so the length tests in the parser always succeed
  and its equations hold without them.
\<close>

lemma take_tok_shorter: "take_tok k ts = Inr (t, rest) \<Longrightarrow> length rest < length ts"
  by (auto simp: take_tok_def split: list.splits if_splits)

lemma match_tok_shorter: "match_tok ks ts = Some (t, rest) \<Longrightarrow> length rest < length ts"
  by (auto simp: match_tok_def split: list.splits if_splits)

lemma parse_comparison_consumes:
  assumes "parse_comparison rt ts = Inr (n, rest)"
  shows "length rest < length ts"
proof -
  obtain ftok ts1 where a: "take_tok IDENT ts = Inr (ftok, ts1)"
    using assms by (auto simp: parse_comparison_def split: sum.splits)
  have "\<exists>ts2 vt. length ts2 < length ts1
          \<and> match_tok [NUMBER, STRING, IDENT] ts2 = Some (vt, rest)"
    using assms a
    apply (simp add: parse_comparison_def split: sum.splits option.splits prod.splits)
     apply (blast dest: take_tok_shorter match_tok_shorter)+
    done
  then obtain ts2 vt where b: "length ts2 < length ts1"
    and c: "match_tok [NUMBER, STRING, IDENT] ts2 = Some (vt, rest)"
    by blast
  show ?thesis
    using take_tok_shorter [OF a] b match_tok_shorter [OF c] by simp
qed

lemma parse_consumes:
  "(\<forall>n rest. parse_expr rt ts = Inr (n, rest) \<longrightarrow> length rest < length ts)"
  "(\<forall>n rest. expr_loop rt node ts = Inr (n, rest) \<longrightarrow> length rest \<le> length ts)"
  "(\<forall>n rest. parse_term rt ts = Inr (n, rest) \<longrightarrow> length rest < length ts)"
  "(\<forall>n rest. term_loop rt node' ts = Inr (n, rest) \<longrightarrow> length rest \<le> length ts)"
  "(\<forall>n rest. parse_factor rt ts = Inr (n, rest) \<longrightarrow> length rest < length ts)"
proof (induction rt ts and rt node ts and rt ts and rt node' ts and rt ts
    rule: parse_expr_expr_loop_parse_term_term_loop_parse_factor.induct)
  case (1 rt ts)
  show ?case
  proof (intro allI impI)
    fix n rest assume a: "parse_expr rt ts = Inr (n, rest)"
    then obtain node r1 where t: "parse_term rt ts = Inr (node, r1)"
      and g: "length r1 \<le> length ts" and l: "expr_loop rt node r1 = Inr (n, rest)"
      by (subst (asm) parse_expr.simps) (auto split: sum.splits if_splits)
    have "length r1 < length ts" using "1.IH"(1) t by blast
    moreover have "length rest \<le> length r1" using "1.IH"(2) [OF t refl g] l by blast
    ultimately show "length rest < length ts" by simp
  qed
next
  case (2 rt node ts)
  show ?case
  proof (intro allI impI)
    fix n rest assume a: "expr_loop rt node ts = Inr (n, rest)"
    show "length rest \<le> length ts"
    proof (cases "match_tok [OR] ts")
      case None
      then show ?thesis using a by (subst (asm) expr_loop.simps) simp
    next
      case (Some p)
      obtain t ts' where p: "p = (t, ts')" by (cases p)
      have m: "match_tok [OR] ts = Some (t, ts')" using Some p by simp
      from a m obtain rhs r1 where t1: "parse_term rt ts' = Inr (rhs, r1)"
        and g: "length r1 \<le> length ts'" and l: "expr_loop rt (Or node rhs) r1 = Inr (n, rest)"
        by (subst (asm) expr_loop.simps) (auto split: sum.splits if_splits)
      have "length rest \<le> length r1" using "2.IH"(2) [OF m refl t1 refl g] l by blast
      then show ?thesis using g match_tok_shorter [OF m] by simp
    qed
  qed
next
  case (3 rt ts)
  show ?case
  proof (intro allI impI)
    fix n rest assume a: "parse_term rt ts = Inr (n, rest)"
    then obtain node r1 where t: "parse_factor rt ts = Inr (node, r1)"
      and g: "length r1 \<le> length ts" and l: "term_loop rt node r1 = Inr (n, rest)"
      by (subst (asm) parse_term.simps) (auto split: sum.splits if_splits)
    have "length r1 < length ts" using "3.IH"(1) t by blast
    moreover have "length rest \<le> length r1" using "3.IH"(2) [OF t refl g] l by blast
    ultimately show "length rest < length ts" by simp
  qed
next
  case (4 rt node ts)
  show ?case
  proof (intro allI impI)
    fix n rest assume a: "term_loop rt node ts = Inr (n, rest)"
    show "length rest \<le> length ts"
    proof (cases "match_tok [AND] ts")
      case None
      then show ?thesis using a by (subst (asm) term_loop.simps) simp
    next
      case (Some p)
      obtain t ts' where p: "p = (t, ts')" by (cases p)
      have m: "match_tok [AND] ts = Some (t, ts')" using Some p by simp
      from a m obtain rhs r1 where t1: "parse_factor rt ts' = Inr (rhs, r1)"
        and g: "length r1 \<le> length ts'" and l: "term_loop rt (And node rhs) r1 = Inr (n, rest)"
        by (subst (asm) term_loop.simps) (auto split: sum.splits if_splits)
      have "length rest \<le> length r1" using "4.IH"(2) [OF m refl t1 refl g] l by blast
      then show ?thesis using g match_tok_shorter [OF m] by simp
    qed
  qed
next
  case (5 rt ts)
  show ?case
  proof (intro allI impI)
    fix n rest assume a: "parse_factor rt ts = Inr (n, rest)"
    show "length rest < length ts"
    proof (cases "match_tok [LPAREN] ts")
      case None
      then have "parse_comparison rt ts = Inr (n, rest)"
        using a by (subst (asm) parse_factor.simps) simp
      then show ?thesis by (rule parse_comparison_consumes)
    next
      case (Some p)
      obtain t ts' where p: "p = (t, ts')" by (cases p)
      have m: "match_tok [LPAREN] ts = Some (t, ts')" using Some p by simp
      from a m obtain node r1 tk where e: "parse_expr rt ts' = Inr (node, r1)"
        and k: "take_tok RPAREN r1 = Inr (tk, rest)"
        by (subst (asm) parse_factor.simps) (auto split: sum.splits)
      have "length r1 < length ts'" using "5.IH" [OF m refl] e by blast
      then show ?thesis using take_tok_shorter [OF k] match_tok_shorter [OF m] by simp
    qed
  qed
qed

lemma parse_expr_unfold:
  "parse_expr rt ts = (case parse_term rt ts of Inl err \<Rightarrow> Inl err
                       | Inr (node, rest) \<Rightarrow> expr_loop rt node rest)"
  using parse_consumes(3) [of rt ts]
  by (subst parse_expr.simps) (auto split: sum.splits)

lemma parse_term_unfold:
  "parse_term rt ts = (case parse_factor rt ts of Inl err \<Rightarrow> Inl err
                       | Inr (node, rest) \<Rightarrow> term_loop rt node rest)"
  using parse_consumes(5) [of rt ts]
  by (subst parse_term.simps) (auto split: sum.splits)

lemma expr_loop_unfold:
  "expr_loop rt node ts =
     (case match_tok [OR] ts of None \<Rightarrow> Inr (node, ts)
      | Some (t, ts') \<Rightarrow> (case parse_term rt ts' of Inl err \<Rightarrow> Inl err
                           | Inr (rhs, rest) \<Rightarrow> expr_loop rt (Or node rhs) rest))"
proof (cases "match_tok [OR] ts")
  case None
  then show ?thesis by (subst expr_loop.simps) simp
next
  case (Some p)
  obtain t ts' where p: "p = (t, ts')" by (cases p)
  show ?thesis
    using Some p parse_consumes(3) [of rt ts']
    by (subst expr_loop.simps) (auto split: sum.splits)
qed

lemma term_loop_unfold:
  "term_loop rt node ts =
     (case match_tok [AND] ts of None \<Rightarrow> Inr (node, ts)
      | Some (t, ts') \<Rightarrow> (case parse_factor rt ts' of Inl err \<Rightarrow> Inl err
                           | Inr (rhs, rest) \<Rightarrow> term_loop rt (And node rhs) rest))"
proof (cases "match_tok [AND] ts")
  case None
  then show ?thesis by (subst term_loop.simps) simp
next
  case (Some p)
  obtain t ts' where p: "p = (t, ts')" by (cases p)
  show ?thesis
    using Some p parse_consumes(5) [of rt ts']
    by (subst term_loop.simps) (auto split: sum.splits)
qed

lemma less_ten_cases:
  "d < (10::nat) \<Longrightarrow> d = 0 \<or> d = 1 \<or> d = 2 \<or> d = 3 \<or> d = 4 \<or> d = 5 \<or> d = 6 \<or> d = 7 \<or> d = 8 \<or> d = 9"
  by arith

lemma digit_char_props:
  assumes "d < 10"
  shows "digit_val (digit_char d) = d" and "digit_char d \<noteq> CHR ''.''" and "digit_char d \<noteq> CHR ''-''"
  using less_ten_cases [OF assms] by (auto simp: digit_char_def digit_val_def)

text \<open>Printing an integer and reading it back as a \<open>NUMBER\<close> token gives the integer.\<close>

lemma str_of_nat_digits: "set (str_of_nat n) \<subseteq> digit_char ` {..<10}"
proof (induction n rule: str_of_nat.induct)
  case (1 n)
  show ?case
  proof (cases "n < 10")
    case True
    then show ?thesis by (subst str_of_nat.simps) simp
  next
    case False
    have "n mod 10 < 10" by simp
    then show ?thesis using False "1.IH" by (subst str_of_nat.simps) auto
  qed
qed

lemma str_of_nat_nonempty: "str_of_nat n \<noteq> []"
  by (subst str_of_nat.simps) simp

lemma nat_of_digits_snoc: "nat_of_digits (ds @ [c]) = 10 * nat_of_digits ds + digit_val c"
  by (simp add: nat_of_digits_def)

lemma nat_of_digits_str_of_nat: "nat_of_digits (str_of_nat n) = n"
proof (induction n rule: str_of_nat.induct)
  case (1 n)
  show ?case
  proof (cases "n < 10")
    case True
    then show ?thesis
      by (subst str_of_nat.simps) (simp add: nat_of_digits_def digit_char_props)
  next
    case False
    have "n mod 10 < 10" by simp
    then have "digit_val (digit_char (n mod 10)) = n mod 10" by (rule digit_char_props)
    then show ?thesis
      using False "1.IH" by (subst str_of_nat.simps) (simp add: nat_of_digits_snoc)
  qed
qed

lemma str_of_nat_no_special:
  "CHR ''.'' \<notin> set (str_of_nat n)" "CHR ''-'' \<notin> set (str_of_nat n)"
  using str_of_nat_digits [of n] digit_char_props(2,3) by (fastforce simp: subset_iff image_iff)+

lemma str_of_int_no_point: "CHR ''.'' \<notin> set (str_of_int i)"
  by (simp add: str_of_int_def str_of_nat_no_special)

lemma int_of_number_str_of_int: "int_of_number (str_of_int i) = i"
proof (cases "i < 0")
  case True
  then show ?thesis
    by (simp add: str_of_int_def int_of_number_def nat_of_digits_str_of_nat)
next
  case False
  obtain c ds where s: "str_of_nat (nat i) = c # ds"
    using str_of_nat_nonempty [of "nat i"] by (cases "str_of_nat (nat i)") auto
  have "c \<noteq> CHR ''-''" using str_of_nat_no_special(2) [of "nat i"] s by auto
  moreover have "nat_of_digits (c # ds) = nat i"
    using nat_of_digits_str_of_nat [of "nat i"] s by simp
  ultimately show ?thesis using False s by (simp add: str_of_int_def int_of_number_def)
qed

lemma coerce_value_token:
  "printable (Cmp field op val) \<Longrightarrow> coerce_value rt (value_token val) = Inr val"
  by (cases val)
     (simp_all add: value_token_def coerce_value_def str_of_int_no_point int_of_number_str_of_int)

lemma parse_comparison_leaf:
  assumes "printable (Cmp field op val)"
  shows "parse_comparison rt (Token IDENT field # op_token op # value_token val # rest)
           = Inr (Cmp field op val, rest)"
proof -
  have k: "kind (value_token val) \<in> set [NUMBER, STRING, IDENT]"
    by (cases val) (simp_all add: value_token_def)
  show ?thesis
    using coerce_value_token [OF assms, of rt] k
    by (simp add: parse_comparison_def take_tok_def match_tok_def op_token_def)
qed

text \<open>
  The parser inverts the printer at each of the three levels: a factor is read back whatever
  follows, a term continues with the \<open>AND\<close> loop, and an expression, unless an \<open>AND\<close>
  follows, continues with the \<open>OR\<close> loop.
\<close>

lemma term_loop_stop: "match_tok [AND] rest = None \<Longrightarrow> term_loop rt n rest = Inr (n, rest)"
  by (subst term_loop_unfold) simp

lemma expr_loop_stop: "match_tok [OR] rest = None \<Longrightarrow> expr_loop rt n rest = Inr (n, rest)"
  by (subst expr_loop_unfold) simp

lemma term_loop_step:
  "parse_factor rt ts = Inr (r, rest) \<Longrightarrow>
   term_loop rt l (Token AND ''AND'' # ts) = term_loop rt (And l r) rest"
  by (subst term_loop_unfold) (simp add: match_tok_def)

lemma expr_loop_step:
  "parse_term rt ts = Inr (r, rest) \<Longrightarrow>
   expr_loop rt l (Token OR ''OR'' # ts) = expr_loop rt (Or l r) rest"
  by (subst expr_loop_unfold) (simp add: match_tok_def)

lemma parse_factor_paren:
  assumes "parse_expr rt ts = Inr (n, Token RPAREN '')'' # rest)"
  shows "parse_factor rt (Token LPAREN ''('' # ts) = Inr (n, rest)"
  using assms by (subst parse_factor.simps) (simp add: match_tok_def take_tok_def)

lemma match_rparen [simp]:
  "match_tok [AND] (Token RPAREN '')'' # rest) = None"
  "match_tok [OR] (Token RPAREN '')'' # rest) = None"
  "match_tok [AND] (Token OR ''OR'' # rest) = None"
  "match_tok [AND] [] = None" "match_tok [OR] [] = None"
  by (simp_all add: match_tok_def)

lemma parse_unparse_levels:
  "printable n \<Longrightarrow>
   (\<forall>rest. parse_factor rt (unparse 2 n @ rest) = Inr (n, rest))
   \<and> (\<forall>rest. parse_term rt (unparse 1 n @ rest) = term_loop rt n rest)
   \<and> (\<forall>rest. match_tok [AND] rest = None \<longrightarrow>
          parse_expr rt (unparse 0 n @ rest) = expr_loop rt n rest)"
proof (induction n)
  case (Cmp field op val)
  have f: "\<And>rest. parse_factor rt (unparse 2 (Cmp field op val) @ rest) = Inr (Cmp field op val, rest)"
    using parse_comparison_leaf [OF Cmp.prems, of rt]
    by (subst parse_factor.simps) (simp add: match_tok_def)
  have t: "\<And>rest. parse_term rt (unparse 1 (Cmp field op val) @ rest)
                  = term_loop rt (Cmp field op val) rest"
    using f by (subst parse_term_unfold) simp
  have e: "\<And>rest. match_tok [AND] rest = None \<Longrightarrow>
             parse_expr rt (unparse 0 (Cmp field op val) @ rest) = expr_loop rt (Cmp field op val) rest"
    using t by (subst parse_expr_unfold) (simp add: term_loop_stop)
  show ?case using f t e by blast
next
  case (And l r)
  let ?n = "And l r"
  have pl: "printable l" and pr: "printable r" using And.prems by simp_all
  have fr: "\<And>rest. parse_factor rt (unparse 2 r @ rest) = Inr (r, rest)"
    using And.IH(2) [OF pr] by blast
  have tl: "\<And>rest. parse_term rt (unparse 1 l @ rest) = term_loop rt l rest"
    using And.IH(1) [OF pl] by blast
  have t: "\<And>rest. parse_term rt (unparse 1 ?n @ rest) = term_loop rt ?n rest"
    using tl term_loop_step [OF fr] by (simp add: paren_def)
  have e: "\<And>rest. match_tok [AND] rest = None \<Longrightarrow>
             parse_expr rt (unparse 0 ?n @ rest) = expr_loop rt ?n rest"
  proof -
    fix rest assume m: "match_tok [AND] rest = None"
    have "unparse 0 ?n = unparse 1 ?n" by (simp add: paren_def)
    then show "parse_expr rt (unparse 0 ?n @ rest) = expr_loop rt ?n rest"
      using t [of rest] m by (subst parse_expr_unfold) (simp add: term_loop_stop)
  qed
  have f: "\<And>rest. parse_factor rt (unparse 2 ?n @ rest) = Inr (?n, rest)"
  proof -
    fix rest
    have "parse_expr rt (unparse 0 ?n @ Token RPAREN '')'' # rest)
            = Inr (?n, Token RPAREN '')'' # rest)"
      using e [of "Token RPAREN '')'' # rest"] by (simp add: expr_loop_stop)
    then have "parse_factor rt (Token LPAREN ''('' # unparse 0 ?n @ Token RPAREN '')'' # rest)
                 = Inr (?n, rest)"
      by (rule parse_factor_paren)
    then show "parse_factor rt (unparse 2 ?n @ rest) = Inr (?n, rest)"
      by (simp add: paren_def)
  qed
  show ?case using f t e by blast
next
  case (Or l r)
  let ?n = "Or l r"
  have pl: "printable l" and pr: "printable r" using Or.prems by simp_all
  have tr: "\<And>rest. parse_term rt (unparse 1 r @ rest) = term_loop rt r rest"
    using Or.IH(2) [OF pr] by blast
  have el: "\<And>rest. match_tok [AND] rest = None \<Longrightarrow>
              parse_expr rt (unparse 0 l @ rest) = expr_loop rt l rest"
    using Or.IH(1) [OF pl] by blast
  have e: "\<And>rest. match_tok [AND] rest = None \<Longrightarrow>
             parse_expr rt (unparse 0 ?n @ rest) = expr_loop rt ?n rest"
  proof -
    fix rest assume m: "match_tok [AND] rest = None"
    have "parse_term rt (unparse 1 r @ rest) = Inr (r, rest)"
      using tr [of rest] m by (simp add: term_loop_stop)
    then have "expr_loop rt l (Token OR ''OR'' # unparse 1 r @ rest) = expr_loop rt ?n rest"
      by (rule expr_loop_step)
    then show "parse_expr rt (unparse 0 ?n @ rest) = expr_loop rt ?n rest"
      using el [of "Token OR ''OR'' # unparse 1 r @ rest"] by (simp add: paren_def)
  qed
  have f: "\<And>rest. parse_factor rt (unparse 2 ?n @ rest) = Inr (?n, rest)"
  proof -
    fix rest
    have "parse_expr rt (unparse 0 ?n @ Token RPAREN '')'' # rest)
            = Inr (?n, Token RPAREN '')'' # rest)"
      using e [of "Token RPAREN '')'' # rest"] by (simp add: expr_loop_stop)
    then have "parse_factor rt (Token LPAREN ''('' # unparse 0 ?n @ Token RPAREN '')'' # rest)
                 = Inr (?n, rest)"
      by (rule parse_factor_paren)
    then show "parse_factor rt (unparse 2 ?n @ rest) = Inr (?n, rest)"
      by (simp add: paren_def)
  qed
  have t: "\<And>rest. parse_term rt (unparse 1 ?n @ rest) = term_loop rt ?n rest"
  proof -
    fix rest
    have "unparse 1 ?n = unparse 2 ?n" by (simp add: paren_def)
    then show "parse_term rt (unparse 1 ?n @ rest) = term_loop rt ?n rest"
      using f [of rest] by (subst parse_term_unfold) simp
  qed
  show ?case using f t e by blast
qed

lemma parse_unparse: "printable n \<Longrightarrow> parse_expr rt (unparse 0 n) = Inr (n, [])"
  using parse_unparse_levels [of n rt] expr_loop_stop [of "[]" rt n]
  by (metis append_Nil2 match_rparen(4,5))

text \<open>The parser step by step on input that begins with a printed factor.\<close>

lemma parse_factor_factor:
  "printable a \<Longrightarrow> parse_factor rt (unparse 2 a @ rest) = Inr (a, rest)"
  "printable a \<Longrightarrow> parse_factor rt (unparse 2 a) = Inr (a, [])"
  using parse_unparse_levels [of a rt] by (auto dest: spec [of _ "[]"])

lemma parse_term_factor:
  "printable a \<Longrightarrow> parse_term rt (unparse 2 a @ rest) = term_loop rt a rest"
  "printable a \<Longrightarrow> parse_term rt (unparse 2 a) = term_loop rt a []"
  by (subst parse_term_unfold, simp add: parse_factor_factor)+

lemma term_loop_cases:
  "term_loop rt l (Token AND v # ts) =
     (case parse_factor rt ts of Inl err \<Rightarrow> Inl err
      | Inr (r, rest) \<Rightarrow> term_loop rt (And l r) rest)"
  "term_loop rt l (Token OR v # ts) = Inr (l, Token OR v # ts)"
  "term_loop rt l (Token RPAREN v # ts) = Inr (l, Token RPAREN v # ts)"
  "term_loop rt l [] = Inr (l, [])"
  by (subst term_loop_unfold, simp add: match_tok_def)+

lemma expr_loop_cases:
  "expr_loop rt l (Token OR v # ts) =
     (case parse_term rt ts of Inl err \<Rightarrow> Inl err
      | Inr (r, rest) \<Rightarrow> expr_loop rt (Or l r) rest)"
  "expr_loop rt l (Token RPAREN v # ts) = Inr (l, Token RPAREN v # ts)"
  "expr_loop rt l [] = Inr (l, [])"
  by (subst expr_loop_unfold, simp add: match_tok_def)+

lemma parse_factor_lparen:
  "parse_factor rt (Token LPAREN v # ts) =
     (case parse_expr rt ts of Inl err \<Rightarrow> Inl err
      | Inr (node, rest) \<Rightarrow>
          (case take_tok RPAREN rest of Inl err \<Rightarrow> Inl err
           | Inr (t, rest') \<Rightarrow> Inr (node, rest')))"
  by (subst parse_factor.simps) (simp add: match_tok_def)

lemma take_rparen: "take_tok RPAREN (Token RPAREN v # ts) = Inr (Token RPAREN v, ts)"
  by (simp add: take_tok_def)

lemmas parse_steps = parse_expr_unfold parse_term_unfold parse_factor_factor parse_term_factor
  term_loop_cases expr_loop_cases parse_factor_lparen take_rparen

lemma precedence_instances:
  assumes "printable a" "printable b" "printable c"
  shows "parse_expr rt (unparse 2 a @ Token OR ''OR'' # unparse 2 b @ Token AND ''AND'' # unparse 2 c)
           = Inr (Or a (And b c), [])"
    and "parse_expr rt (unparse 2 a @ Token AND ''AND'' # unparse 2 b @ Token OR ''OR'' # unparse 2 c)
           = Inr (Or (And a b) c, [])"
    and "parse_expr rt (unparse 2 a @ Token OR ''OR'' # unparse 2 b @ Token OR ''OR'' # unparse 2 c)
           = Inr (Or (Or a b) c, [])"
    and "parse_expr rt (unparse 2 a @ Token AND ''AND'' # unparse 2 b @ Token AND ''AND'' # unparse 2 c)
           = Inr (And (And a b) c, [])"
    and "parse_expr rt (Token LPAREN ''('' # unparse 2 a @ Token OR ''OR'' # unparse 2 b
                          @ Token RPAREN '')'' # Token AND ''AND'' # unparse 2 c)
           = Inr (And (Or a b) c, [])"
    and "parse_expr rt (unparse 2 a @ Token AND ''AND'' # Token LPAREN ''('' # unparse 2 b
                          @ Token AND ''AND'' # unparse 2 c @ [Token RPAREN '')''])
           = Inr (And a (And b c), [])"
  using assms by (simp_all add: parse_steps)

lemma parse_example:
  "parse rt ''year >= 2000 and deaths > 1000''
     = Inr (And (Cmp ''year'' ''>='' (PInt 2000)) (Cmp ''deaths'' ''>'' (PInt 1000)))"
  by code_simp

lemma parse_rejects_rest:
  "tokenize expr = Inr toks \<Longrightarrow> parse_expr rt toks = Inr (node, rest) \<Longrightarrow> rest \<noteq> []
   \<Longrightarrow> parse rt expr = Inl ParseError"
  by (simp add: parse_def at_end_def)

lemma sample_tokens:
  "tokenize ''year >= 2000 deaths''
     = Inr [Token IDENT ''year'', Token OP ''>='', Token NUMBER ''2000'', Token IDENT ''deaths'']"
  by code_simp

lemma sample_parse_expr:
  "parse_expr plain_rt
     [Token IDENT ''year'', Token OP ''>='', Token NUMBER ''2000'', Token IDENT ''deaths'']
   = Inr (Cmp ''year'' ''>='' (PInt 2000), [Token IDENT ''deaths''])"
  by code_simp

lemma sample_unparse:
  "unparse 0 (Or (Cmp ''a'' ''=='' (PInt 1)) (And (Cmp ''b'' ''contains'' (PStr ''x'')) (Cmp ''c'' ''<'' (PInt 3))))
   = [Token IDENT ''a'', Token OP ''=='', Token NUMBER ''1'', Token OR ''OR'',
      Token IDENT ''b'', Token CONTAINS ''contains'', Token IDENT ''x'', Token AND ''AND'',
      Token IDENT ''c'', Token OP ''<'', Token NUMBER ''3'']"
  by code_simp

text \<open>
  Claim C9 (precedence, associativity, parentheses, the example, trailing input). The parser
  reads back every printable tree from its minimally parenthesised token sequence. In
  particular, for sub-expressions \<open>a\<close>, \<open>b\<close>, \<open>c\<close> written as factors: \<open>a OR b AND c\<close> is
  \<open>Or a (And b c)\<close> and \<open>a AND b OR c\<close> is \<open>Or (And a b) c\<close> (AND binds tighter);
  \<open>a OR b OR c\<close> and \<open>a AND b AND c\<close> nest to the left; \<open>(a OR b) AND c\<close> and
  \<open>a AND (b AND c)\<close> follow the parentheses. The text \<open>year >= 2000 and deaths > 1000\<close> parses
  to \<open>And (Cmp year >= 2000) (Cmp deaths > 1000)\<close> with integer literals. When tokens remain
  after a complete expression, \<open>parse\<close> raises \<open>ParseError\<close>.
\<close>

theorem parser_precedence:
  "(printable n \<longrightarrow> parse_expr rt (unparse 0 n) = Inr (n, []))
   \<and> (printable a \<and> printable b \<and> printable c \<longrightarrow>
        parse_expr rt (unparse 2 a @ Token OR ''OR'' # unparse 2 b @ Token AND ''AND'' # unparse 2 c)
          = Inr (Or a (And b c), [])
        \<and> parse_expr rt (unparse 2 a @ Token AND ''AND'' # unparse 2 b @ Token OR ''OR'' # unparse 2 c)
          = Inr (Or (And a b) c, [])
        \<and> parse_expr rt (unparse 2 a @ Token OR ''OR'' # unparse 2 b @ Token OR ''OR'' # unparse 2 c)
          = Inr (Or (Or a b) c, [])
        \<and> parse_expr rt (unparse 2 a @ Token AND ''AND'' # unparse 2 b @ Token AND ''AND'' # unparse 2 c)
          = Inr (And (And a b) c, [])
        \<and> parse_expr rt (Token LPAREN ''('' # unparse 2 a @ Token OR ''OR'' # unparse 2 b
                           @ Token RPAREN '')'' # Token AND ''AND'' # unparse 2 c)
          = Inr (And (Or a b) c, [])
        \<and> parse_expr rt (unparse 2 a @ Token AND ''AND'' # Token LPAREN ''('' # unparse 2 b
                           @ Token AND ''AND'' # unparse 2 c @ [Token RPAREN '')''])
          = Inr (And a (And b c), []))
   \<and> parse rt ''year >= 2000 and deaths > 1000''
       = Inr (And (Cmp ''year'' ''>='' (PInt 2000)) (Cmp ''deaths'' ''>'' (PInt 1000)))
   \<and> (tokenize expr = Inr toks \<and> parse_expr rt toks = Inr (node, rest) \<and> rest \<noteq> []
        \<longrightarrow> parse rt expr = Inl ParseError)"
proof (intro conjI impI)
  assume "printable n"
  then show "parse_expr rt (unparse 0 n) = Inr (n, [])" by (rule parse_unparse)
next
  show "parse rt ''year >= 2000 and deaths > 1000''
       = Inr (And (Cmp ''year'' ''>='' (PInt 2000)) (Cmp ''deaths'' ''>'' (PInt 1000)))"
    by (rule parse_example)
next
  assume "tokenize expr = Inr toks \<and> parse_expr rt toks = Inr (node, rest) \<and> rest \<noteq> []"
  then show "parse rt expr = Inl ParseError" using parse_rejects_rest by blast
qed (simp_all add: precedence_instances)

lemma sample_printable:
  "printable (Or (Cmp ''a'' ''=='' (PInt 1))
                (And (Cmp ''b'' ''contains'' (PStr ''x'')) (Cmp ''c'' ''<'' (PInt 3))))"
  by code_simp

theorem parser_precedence_witness:
  "printable (Or (Cmp ''a'' ''=='' (PInt 1)) (And (Cmp ''b'' ''contains'' (PStr ''x'')) (Cmp ''c'' ''<'' (PInt 3))))
   \<and> parse_expr plain_rt
        [Token IDENT ''a'', Token OP ''=='', Token NUMBER ''1'', Token OR ''OR'',
         Token IDENT ''b'', Token CONTAINS ''contains'', Token IDENT ''x'', Token AND ''AND'',
         Token IDENT ''c'', Token OP ''<'', Token NUMBER ''3'']
       = Inr (Or (Cmp ''a'' ''=='' (PInt 1))
                (And (Cmp ''b'' ''contains'' (PStr ''x'')) (Cmp ''c'' ''<'' (PInt 3))), [])
   \<and> tokenize ''year >= 2000 deaths''
       = Inr [Token IDENT ''year'', Token OP ''>='', Token NUMBER ''2000'', Token IDENT ''deaths'']
   \<and> parse_expr plain_rt
        [Token IDENT ''year'', Token OP ''>='', Token NUMBER ''2000'', Token IDENT ''deaths'']
       = Inr (Cmp ''year'' ''>='' (PInt 2000), [Token IDENT ''deaths''])
   \<and> parse plain_rt ''year >= 2000 deaths'' = Inl ParseError"
proof -
  let ?n = "Or (Cmp ''a'' ''=='' (PInt 1))
              (And (Cmp ''b'' ''contains'' (PStr ''x'')) (Cmp ''c'' ''<'' (PInt 3)))"
  have p: "printable ?n" by (rule sample_printable)
  note t = parser_precedence [of ?n plain_rt "Cmp ''a'' ''=='' (PInt 1)"
      "Cmp ''b'' ''contains'' (PStr ''x'')" "Cmp ''c'' ''<'' (PInt 3)"
      "''year >= 2000 deaths''"
      "[Token IDENT ''year'', Token OP ''>='', Token NUMBER ''2000'', Token IDENT ''deaths'']"
      "Cmp ''year'' ''>='' (PInt 2000)" "[Token IDENT ''deaths'']"]
  have "parse_expr plain_rt (unparse 0 ?n) = Inr (?n, [])" using t p by blast
  then have a: "parse_expr plain_rt
        [Token IDENT ''a'', Token OP ''=='', Token NUMBER ''1'', Token OR ''OR'',
         Token IDENT ''b'', Token CONTAINS ''contains'', Token IDENT ''x'', Token AND ''AND'',
         Token IDENT ''c'', Token OP ''<'', Token NUMBER ''3'']
       = Inr (?n, [])"
    unfolding sample_unparse .
  have b: "parse plain_rt ''year >= 2000 deaths'' = Inl ParseError"
    using t sample_tokens sample_parse_expr by blast
  show ?thesis
    using p a sample_tokens sample_parse_expr b by (intro conjI)
qed

section \<open>The indices\<close>

text \<open>What \<open>build_indices\<close> stores: each bucket holds, sorted, the IDs of the events with
  that key, and \<open>years_sorted\<close> lists the start years that occur, ascending and once each.\<close>

lemma map_of_setdefault_append:
  "map_of (setdefault_append d k v) k'
     = (if k' = k then Some (dict_get d k @ [v]) else map_of d k')"
  by (induction d) (auto simp: dict_get_def)

lemma dict_get_setdefault_append:
  "dict_get (setdefault_append d k v) k' = (if k' = k then dict_get d k @ [v] else dict_get d k')"
  by (simp add: dict_get_def map_of_setdefault_append)

lemma keys_setdefault_append:
  "fst ` set (setdefault_append d k v) = insert k (fst ` set d)"
proof (induction d)
  case (Cons p d)
  obtain k' ids where p: "p = (k', ids)" by (cases p)
  show ?case
    using Cons.IH p by (cases "k' = k") (simp_all add: insert_commute)
qed simp

lemma distinct_keys_setdefault_append:
  "distinct (map fst d) \<Longrightarrow> distinct (map fst (setdefault_append d k v))"
proof (induction d)
  case (Cons p d)
  obtain k' ids where p: "p = (k', ids)" by (cases p)
  have d: "distinct (map fst d)" and n: "k' \<notin> fst ` set d" using Cons.prems p by simp_all
  show ?case
  proof (cases "k' = k")
    case True
    then show ?thesis using p d n by simp
  next
    case False
    have "k' \<notin> fst ` set (setdefault_append d k v)"
      using False n by (simp add: keys_setdefault_append)
    then show ?thesis using False p Cons.IH [OF d] by simp
  qed
qed simp

lemma build_loop_components:
  "build_loop evs (bc, bt, yi) =
     (foldl (\<lambda>d e. setdefault_append d (country e) (event_id e)) bc evs,
      foldl (\<lambda>d e. setdefault_append d (disaster_type e) (event_id e)) bt evs,
      foldl (\<lambda>d e. setdefault_append d (start_year e) (event_id e)) yi evs)"
  by (induction evs arbitrary: bc bt yi) simp_all

lemma dict_get_filed:
  "dict_get (foldl (\<lambda>d e. setdefault_append d (key e) (event_id e)) d evs) k
     = dict_get d k @ map event_id (filter (\<lambda>e. key e = k) evs)"
  by (induction evs arbitrary: d) (simp_all add: dict_get_setdefault_append)

lemma keys_filed:
  "fst ` set (foldl (\<lambda>d e. setdefault_append d (key e) (event_id e)) d evs)
     = fst ` set d \<union> key ` set evs"
  by (induction evs arbitrary: d) (auto simp: keys_setdefault_append)

lemma distinct_keys_filed:
  "distinct (map fst d) \<Longrightarrow>
   distinct (map fst (foldl (\<lambda>d e. setdefault_append d (key e) (event_id e)) d evs))"
  by (induction evs arbitrary: d) (simp_all add: distinct_keys_setdefault_append)

lemma dict_get_sort_buckets: "dict_get (sort_buckets d) k = sort (dict_get d k)"
proof -
  have "map_of (sort_buckets d) k = map_option sort (map_of d k)"
    by (induction d) (auto simp: sort_buckets_def)
  then show ?thesis by (simp add: dict_get_def split: option.splits)
qed

lemma keys_sort_buckets: "map fst (sort_buckets d) = map fst d"
  by (induction d) (auto simp: sort_buckets_def)

lemma dict_get_empty: "dict_get [] k = []"
  by (simp add: dict_get_def)

lemma build_indices_buckets:
  "dict_get (by_country (build_indices evs)) c
     = sort (map event_id (filter (\<lambda>e. country e = c) evs))"
  "dict_get (by_type (build_indices evs)) t
     = sort (map event_id (filter (\<lambda>e. disaster_type e = t) evs))"
  "dict_get (year_to_ids (build_indices evs)) y
     = sort (map event_id (filter (\<lambda>e. start_year e = y) evs))"
  by (simp_all add: build_indices_def build_loop_components dict_get_sort_buckets dict_get_filed
        dict_get_empty)

lemma build_indices_years:
  "sorted (years_sorted (build_indices evs))"
  "distinct (years_sorted (build_indices evs))"
  "set (years_sorted (build_indices evs)) = start_year ` set evs"
proof -
  let ?yi = "foldl (\<lambda>d e. setdefault_append d (start_year e) (event_id e)) [] evs"
  have y: "years_sorted (build_indices evs) = sort (map fst ?yi)"
    by (simp add: build_indices_def build_loop_components keys_sort_buckets)
  show "sorted (years_sorted (build_indices evs))" by (simp add: y)
  show "distinct (years_sorted (build_indices evs))"
    using distinct_keys_filed [of "[]" start_year evs] by (simp add: y)
  show "set (years_sorted (build_indices evs)) = start_year ` set evs"
    using keys_filed [of start_year "[]" evs] by (simp add: y)
qed

text \<open>
  On a sorted list the two binary searches return the split points: everything before
  \<open>bisect_left a x\<close> is below \<open>x\<close> and everything from it on is at least \<open>x\<close>; everything
  before \<open>bisect_right a x\<close> is at most \<open>x\<close> and everything from it on is above.
\<close>

lemma bisect_left_loop_spec:
  "sorted a \<Longrightarrow> lo \<le> hi \<Longrightarrow> hi \<le> length a
   \<Longrightarrow> (\<forall>i < lo. a ! i < x) \<Longrightarrow> (\<forall>i. hi \<le> i \<and> i < length a \<longrightarrow> x \<le> a ! i)
   \<Longrightarrow> bisect_left_loop a x lo hi \<le> length a
       \<and> (\<forall>i < bisect_left_loop a x lo hi. a ! i < x)
       \<and> (\<forall>i. bisect_left_loop a x lo hi \<le> i \<and> i < length a \<longrightarrow> x \<le> a ! i)"
proof (induction a x lo hi rule: bisect_left_loop.induct)
  case (1 a x lo hi)
  let ?mid = "(lo + hi) div 2"
  show ?case
  proof (cases "lo < hi")
    case False
    then have "lo = hi" using "1.prems"(2) by simp
    then show ?thesis
      using False "1.prems" by (subst (1 2 3) bisect_left_loop.simps) simp
  next
    case True
    then have m: "lo \<le> ?mid" "?mid < hi" by simp_all
    show ?thesis
    proof (cases "a ! ?mid < x")
      case lt: True
      have below: "\<forall>i < ?mid + 1. a ! i < x"
      proof (intro allI impI)
        fix i assume "i < ?mid + 1"
        then have "i \<le> ?mid" by simp
        moreover have "?mid < length a" using m "1.prems"(3) by simp
        ultimately have "a ! i \<le> a ! ?mid" using "1.prems"(1) by (simp add: sorted_nth_mono)
        then show "a ! i < x" using lt by simp
      qed
      have "bisect_left_loop a x (?mid + 1) hi \<le> length a
         \<and> (\<forall>i < bisect_left_loop a x (?mid + 1) hi. a ! i < x)
         \<and> (\<forall>i. bisect_left_loop a x (?mid + 1) hi \<le> i \<and> i < length a \<longrightarrow> x \<le> a ! i)"
        using "1.IH"(1) [OF True refl lt "1.prems"(1) _ "1.prems"(3) below "1.prems"(5)] m
        by simp
      moreover have "bisect_left_loop a x lo hi = bisect_left_loop a x (?mid + 1) hi"
        using True lt by (subst bisect_left_loop.simps) (simp add: Let_def)
      ultimately show ?thesis by simp
    next
      case ge: False
      have above: "\<forall>i. ?mid \<le> i \<and> i < length a \<longrightarrow> x \<le> a ! i"
      proof (intro allI impI)
        fix i assume "?mid \<le> i \<and> i < length a"
        then have "a ! ?mid \<le> a ! i" using "1.prems"(1) by (simp add: sorted_nth_mono)
        then show "x \<le> a ! i" using ge by simp
      qed
      have h: "?mid \<le> length a" using m "1.prems"(3) by simp
      have "bisect_left_loop a x lo ?mid \<le> length a
         \<and> (\<forall>i < bisect_left_loop a x lo ?mid. a ! i < x)
         \<and> (\<forall>i. bisect_left_loop a x lo ?mid \<le> i \<and> i < length a \<longrightarrow> x \<le> a ! i)"
        using "1.IH"(2) [OF True refl ge "1.prems"(1) m(1) h "1.prems"(4) above] by simp
      moreover have "bisect_left_loop a x lo hi = bisect_left_loop a x lo ?mid"
        using True ge by (subst bisect_left_loop.simps) (simp add: Let_def)
      ultimately show ?thesis by simp
    qed
  qed
qed

lemma bisect_left_spec:
  assumes "sorted a"
  shows "bisect_left a x \<le> length a"
    and "\<And>i. i < bisect_left a x \<Longrightarrow> a ! i < x"
    and "\<And>i. bisect_left a x \<le> i \<Longrightarrow> i < length a \<Longrightarrow> x \<le> a ! i"
  using bisect_left_loop_spec [OF assms, of 0 "length a" x] by (simp_all add: bisect_left_def)

lemma bisect_right_loop_spec:
  "sorted a \<Longrightarrow> lo \<le> hi \<Longrightarrow> hi \<le> length a
   \<Longrightarrow> (\<forall>i < lo. a ! i \<le> x) \<Longrightarrow> (\<forall>i. hi \<le> i \<and> i < length a \<longrightarrow> x < a ! i)
   \<Longrightarrow> bisect_right_loop a x lo hi \<le> length a
       \<and> (\<forall>i < bisect_right_loop a x lo hi. a ! i \<le> x)
       \<and> (\<forall>i. bisect_right_loop a x lo hi \<le> i \<and> i < length a \<longrightarrow> x < a ! i)"
proof (induction a x lo hi rule: bisect_right_loop.induct)
  case (1 a x lo hi)
  let ?mid = "(lo + hi) div 2"
  show ?case
  proof (cases "lo < hi")
    case False
    then have "lo = hi" using "1.prems"(2) by simp
    then show ?thesis
      using False "1.prems" by (subst (1 2 3) bisect_right_loop.simps) simp
  next
    case True
    then have m: "lo \<le> ?mid" "?mid < hi" by simp_all
    show ?thesis
    proof (cases "x < a ! ?mid")
      case lt: True
      have above: "\<forall>i. ?mid \<le> i \<and> i < length a \<longrightarrow> x < a ! i"
      proof (intro allI impI)
        fix i assume "?mid \<le> i \<and> i < length a"
        then have "a ! ?mid \<le> a ! i" using "1.prems"(1) by (simp add: sorted_nth_mono)
        then show "x < a ! i" using lt by simp
      qed
      have h: "?mid \<le> length a" using m "1.prems"(3) by simp
      have "bisect_right_loop a x lo ?mid \<le> length a
         \<and> (\<forall>i < bisect_right_loop a x lo ?mid. a ! i \<le> x)
         \<and> (\<forall>i. bisect_right_loop a x lo ?mid \<le> i \<and> i < length a \<longrightarrow> x < a ! i)"
        using "1.IH"(1) [OF True refl lt "1.prems"(1) m(1) h "1.prems"(4) above] by simp
      moreover have "bisect_right_loop a x lo hi = bisect_right_loop a x lo ?mid"
        using True lt by (subst bisect_right_loop.simps) (simp add: Let_def)
      ultimately show ?thesis by simp
    next
      case ge: False
      have below: "\<forall>i < ?mid + 1. a ! i \<le> x"
      proof (intro allI impI)
        fix i assume "i < ?mid + 1"
        then have "i \<le> ?mid" by simp
        moreover have "?mid < length a" using m "1.prems"(3) by simp
        ultimately have "a ! i \<le> a ! ?mid" using "1.prems"(1) by (simp add: sorted_nth_mono)
        then show "a ! i \<le> x" using ge by simp
      qed
      have "bisect_right_loop a x (?mid + 1) hi \<le> length a
         \<and> (\<forall>i < bisect_right_loop a x (?mid + 1) hi. a ! i \<le> x)
         \<and> (\<forall>i. bisect_right_loop a x (?mid + 1) hi \<le> i \<and> i < length a \<longrightarrow> x < a ! i)"
        using "1.IH"(2) [OF True refl ge "1.prems"(1) _ "1.prems"(3) below "1.prems"(5)] m
        by simp
      moreover have "bisect_right_loop a x lo hi = bisect_right_loop a x (?mid + 1) hi"
        using True ge by (subst bisect_right_loop.simps) (simp add: Let_def)
      ultimately show ?thesis by simp
    qed
  qed
qed

lemma bisect_right_spec:
  assumes "sorted a"
  shows "bisect_right a x \<le> length a"
    and "\<And>i. i < bisect_right a x \<Longrightarrow> a ! i \<le> x"
    and "\<And>i. bisect_right a x \<le> i \<Longrightarrow> i < length a \<Longrightarrow> x < a ! i"
  using bisect_right_loop_spec [OF assms, of 0 "length a" x] by (simp_all add: bisect_right_def)

lemma slice_set:
  assumes "sorted a"
  shows "set (drop (bisect_left a y1) (take (bisect_right a y2) a))
           = {y \<in> set a. y1 \<le> y \<and> y \<le> y2}"
proof -
  let ?lo = "bisect_left a y1" and ?hi = "bisect_right a y2"
  have idx: "\<And>i. i < length a \<Longrightarrow> (?lo \<le> i \<longleftrightarrow> y1 \<le> a ! i) \<and> (i < ?hi \<longleftrightarrow> a ! i \<le> y2)"
    using bisect_left_spec(2,3) [OF assms, where x = y1]
      bisect_right_spec(2,3) [OF assms, where x = y2]
    by (metis not_le)
  have "set (drop ?lo (take ?hi a)) = {a ! i | i. ?lo \<le> i \<and> i < ?hi \<and> i < length a}"
    (is "?L = ?R")
  proof (intro set_eqI iffI)
    fix x assume "x \<in> ?L"
    then obtain j where j: "j < length (drop ?lo (take ?hi a))"
      and x: "drop ?lo (take ?hi a) ! j = x"
      by (auto simp: in_set_conv_nth)
    have b: "?lo + j < ?hi" "?lo + j < length a" using j by simp_all
    then have "a ! (?lo + j) = x" using x by simp
    then show "x \<in> ?R" using b by (intro CollectI exI [of _ "?lo + j"]) simp
  next
    fix x assume "x \<in> ?R"
    then obtain i where i: "?lo \<le> i" "i < ?hi" "i < length a" and x: "x = a ! i" by blast
    have "i - ?lo < length (drop ?lo (take ?hi a))" using i by simp
    moreover have "drop ?lo (take ?hi a) ! (i - ?lo) = x" using i x by simp
    ultimately show "x \<in> ?L" by (metis nth_mem)
  qed
  also have "\<dots> = {y \<in> set a. y1 \<le> y \<and> y \<le> y2}"
    using idx by (auto simp: in_set_conv_nth)
  finally show ?thesis .
qed

lemma sorted_year_range_ids: "sorted (year_range_ids ix y1 y2)"
  by (simp add: year_range_ids_def Let_def)

lemma set_intersect_sorted_gen:
  "sorted a \<Longrightarrow> sorted b \<Longrightarrow> set (intersect_sorted a b) = set a \<inter> set b"
proof (induction a b rule: intersect_sorted.induct)
  case (3 x a y b)
  have xa: "\<forall>z \<in> set a. x \<le> z" and yb: "\<forall>z \<in> set b. y \<le> z"
    and sa: "sorted a" and sb: "sorted b"
    using "3.prems" by simp_all
  show ?case
  proof (cases "x = y")
    case True
    then have "set (intersect_sorted a b) = set a \<inter> set b" using 3 sa sb by simp
    then show ?thesis using True by auto
  next
    case False
    show ?thesis
    proof (cases "x < y")
      case True
      then have ih: "set (intersect_sorted a (y # b)) = set a \<inter> set (y # b)"
        using 3 False sa by simp
      have "x \<notin> set (y # b)" using True yb by auto
      then show ?thesis using False True ih by auto
    next
      case gt: False
      then have ih: "set (intersect_sorted (x # a) b) = set (x # a) \<inter> set b"
        using 3 False sb by simp
      have "y \<notin> set (x # a)" using gt False xa by auto
      then show ?thesis using False gt ih by auto
    qed
  qed
qed simp_all

lemma lower_year_fields:
  "lower ''start_year'' = ''start_year''" "lower ''year'' = ''year''"
  "lower ''country'' = ''country''"
  by code_simp+

lemma sorted_hd_last:
  assumes "sorted (ys :: int list)" "ys \<noteq> []"
  shows "hd ys = Min (set ys)" and "last ys = Max (set ys)"
proof -
  have "\<forall>y \<in> set ys. hd ys \<le> y"
    using assms by (cases ys) auto
  then show "hd ys = Min (set ys)"
    using assms(2) by (intro Min_eqI [symmetric]) auto
  have "sorted (rev (rev ys))" using assms(1) by simp
  have "\<forall>y \<in> set ys. y \<le> last ys"
  proof
    fix y assume "y \<in> set ys"
    then obtain i where i: "i < length ys" "ys ! i = y" by (auto simp: in_set_conv_nth)
    have "ys ! i \<le> ys ! (length ys - 1)"
      using assms(1) i(1) by (intro sorted_nth_mono) simp_all
    then show "y \<le> last ys" using i(2) assms(2) by (simp add: last_conv_nth)
  qed
  then show "last ys = Max (set ys)"
    using assms(2) by (intro Max_eqI [symmetric]) auto
qed

lemma bucket_set:
  "set (dict_get (year_to_ids (build_indices evs)) y)
     = {event_id e | e. e \<in> set evs \<and> start_year e = y}"
  apply (simp only: build_indices_buckets set_sort set_map set_filter)
  apply blast
  done

lemma yr_unfold:
  "set (year_range_ids ix y1 y2)
     = (\<Union>y \<in> set (drop (bisect_left (years_sorted ix) y1)
                  (take (bisect_right (years_sorted ix) y2) (years_sorted ix))).
          set (dict_get (year_to_ids ix) y))"
  unfolding year_range_ids_def Let_def by (simp only: set_sort set_concat set_map image_image)

lemma set_year_range_ids:
  "set (year_range_ids (build_indices evs) y1 y2)
     = {event_id e | e. e \<in> set evs \<and> y1 \<le> start_year e \<and> start_year e \<le> y2}"
  (is "?L = ?R")
proof -
  let ?ix = "build_indices evs"
  let ?slice = "drop (bisect_left (years_sorted ?ix) y1)
                  (take (bisect_right (years_sorted ?ix) y2) (years_sorted ?ix))"
  have s: "set ?slice = {y \<in> set (years_sorted ?ix). y1 \<le> y \<and> y \<le> y2}"
    using build_indices_years(1) by (rule slice_set)
  have y: "set (years_sorted ?ix) = start_year ` set evs" by (rule build_indices_years(3))
  show ?thesis
  proof (intro set_eqI iffI)
    fix i assume "i \<in> ?L"
    then obtain yy where a: "yy \<in> set ?slice" and b: "i \<in> set (dict_get (year_to_ids ?ix) yy)"
      unfolding yr_unfold by blast
    from b obtain e where e: "e \<in> set evs" "start_year e = yy" "i = event_id e"
      unfolding bucket_set by blast
    have "y1 \<le> yy \<and> yy \<le> y2" using a unfolding s by blast
    then show "i \<in> ?R" using e by blast
  next
    fix i assume "i \<in> ?R"
    then obtain e where e: "e \<in> set evs" "y1 \<le> start_year e" "start_year e \<le> y2"
      "i = event_id e" by blast
    have "start_year e \<in> set (years_sorted ?ix)" unfolding y using e(1) by (rule imageI)
    then have a: "start_year e \<in> set ?slice" unfolding s using e(2,3) by blast
    have "i \<in> set (dict_get (year_to_ids ?ix) (start_year e))"
      unfolding bucket_set using e(1,4) by blast
    then show "i \<in> ?L" unfolding yr_unfold using a by blast
  qed
qed

lemma apply_cmp_year_range:
  assumes f: "lower field \<in> set [''start_year'', ''year'']"
    and o: "op \<in> set [''>='', ''>'', ''<='', ''<'']"
  shows "apply_cmp rt s field op (PInt v) cands =
           (if years_sorted (idx s) = [] then Inr []
            else Inr (intersect_sorted (sort cands)
                   (year_range_ids (idx s)
                      (if op = ''>='' then v else if op = ''>'' then v + 1
                       else hd (years_sorted (idx s)))
                      (if op = ''<='' then v else if op = ''<'' then v - 1
                       else last (years_sorted (idx s))))))"
proof -
  have nf: "lower field \<noteq> ''country''" "lower field \<noteq> ''disaster_type''"
    using f by auto
  have o': "op = ''>='' \<or> op = ''>'' \<or> op = ''<='' \<or> op = ''<''" using o by simp
  show ?thesis
    using o' f by (elim disjE) (simp_all add: apply_cmp_def Let_def py_int_def nf)
qed

lemma years_empty_iff: "years_sorted (build_indices evs) = [] \<longleftrightarrow> evs = []"
  using build_indices_years(3) [of evs] by (metis image_is_empty set_empty)

lemma sample_lower_year: "lower ''Year'' = ''year''"
  by code_simp

lemma sample_year_gt:
  "apply_cmp plain_rt sample_engine ''Year'' ''>'' (PInt 2001) [0, 1, 2] = Inr [1]"
  by code_simp

lemma sample_year_range: "year_range_ids (build_indices sample_events) 2002 2015 = [1]"
  by code_simp

text \<open>
  Claim C6 (year comparisons through the index). For a comparison on \<open>start_year\<close> or
  \<open>year\<close> with \<open>>=\<close>, \<open>>\<close>, \<open><=\<close> or \<open><\<close> and an integer \<open>v\<close>, the result is empty when no
  year is indexed, and otherwise the sorted candidates intersected with
  \<open>year_range_ids lo hi\<close>, where \<open>lo\<close> is \<open>v\<close> for \<open>>=\<close> and \<open>v + 1\<close> for \<open>>\<close>, \<open>hi\<close> is \<open>v\<close> for
  \<open><=\<close> and \<open>v - 1\<close> for \<open><\<close>, and the open end is the first respectively last entry of
  \<open>years_sorted\<close>. When the index was built from the events, these entries are the least and
  the greatest start year of the dataset, no year is indexed only for an empty dataset, and
  \<open>year_range_ids lo hi\<close> is a sorted list of exactly the IDs of the events whose start year
  lies in \<open>[lo, hi]\<close>, so the intersection holds exactly the candidates among them.
\<close>

theorem year_comparison_bounds:
  "lower field \<in> set [''start_year'', ''year''] \<Longrightarrow> op \<in> set [''>='', ''>'', ''<='', ''<''] \<Longrightarrow>
   apply_cmp rt s field op (PInt v) cands =
     (if years_sorted (idx s) = [] then Inr []
      else Inr (intersect_sorted (sort cands)
             (year_range_ids (idx s)
                (if op = ''>='' then v else if op = ''>'' then v + 1
                 else hd (years_sorted (idx s)))
                (if op = ''<='' then v else if op = ''<'' then v - 1
                 else last (years_sorted (idx s))))))
   \<and> (idx s = build_indices (events s) \<longrightarrow>
        (years_sorted (idx s) = [] \<longleftrightarrow> events s = [])
        \<and> (events s \<noteq> [] \<longrightarrow>
             hd (years_sorted (idx s)) = Min (start_year ` set (events s))
             \<and> last (years_sorted (idx s)) = Max (start_year ` set (events s)))
        \<and> (\<forall>lo hi.
             sorted (year_range_ids (idx s) lo hi)
             \<and> set (year_range_ids (idx s) lo hi)
                 = {event_id e | e. e \<in> set (events s) \<and> lo \<le> start_year e \<and> start_year e \<le> hi}
             \<and> set (intersect_sorted (sort cands) (year_range_ids (idx s) lo hi))
                 = set cands \<inter>
                   {event_id e | e. e \<in> set (events s) \<and> lo \<le> start_year e \<and> start_year e \<le> hi}))"
proof (intro conjI impI allI)
  assume "lower field \<in> set [''start_year'', ''year'']" "op \<in> set [''>='', ''>'', ''<='', ''<'']"
  then show "apply_cmp rt s field op (PInt v) cands =
     (if years_sorted (idx s) = [] then Inr []
      else Inr (intersect_sorted (sort cands)
             (year_range_ids (idx s)
                (if op = ''>='' then v else if op = ''>'' then v + 1
                 else hd (years_sorted (idx s)))
                (if op = ''<='' then v else if op = ''<'' then v - 1
                 else last (years_sorted (idx s))))))"
    by (rule apply_cmp_year_range)
next
  assume ix: "idx s = build_indices (events s)"
  show "(years_sorted (idx s) = []) = (events s = [])"
    unfolding ix by (rule years_empty_iff)
next
  assume ix: "idx s = build_indices (events s)" and ne: "events s \<noteq> []"
  have n: "years_sorted (idx s) \<noteq> []" using ne unfolding ix by (simp add: years_empty_iff)
  have srt: "sorted (years_sorted (idx s))" unfolding ix by (rule build_indices_years(1))
  have st: "set (years_sorted (idx s)) = start_year ` set (events s)"
    unfolding ix by (rule build_indices_years(3))
  show "hd (years_sorted (idx s)) = Min (start_year ` set (events s))"
    using sorted_hd_last(1) [OF srt n] st by simp
  show "last (years_sorted (idx s)) = Max (start_year ` set (events s))"
    using sorted_hd_last(2) [OF srt n] st by simp
next
  fix lo hi
  show "sorted (year_range_ids (idx s) lo hi)" by (rule sorted_year_range_ids)
next
  fix lo hi
  assume ix: "idx s = build_indices (events s)"
  show "set (year_range_ids (idx s) lo hi)
          = {event_id e | e. e \<in> set (events s) \<and> lo \<le> start_year e \<and> start_year e \<le> hi}"
    unfolding ix by (rule set_year_range_ids)
next
  fix lo hi
  assume ix: "idx s = build_indices (events s)"
  have "set (intersect_sorted (sort cands) (year_range_ids (idx s) lo hi))
          = set (sort cands) \<inter> set (year_range_ids (idx s) lo hi)"
    by (intro set_intersect_sorted_gen sorted_year_range_ids) simp
  then show "set (intersect_sorted (sort cands) (year_range_ids (idx s) lo hi))
          = set cands \<inter>
            {event_id e | e. e \<in> set (events s) \<and> lo \<le> start_year e \<and> start_year e \<le> hi}"
    unfolding ix set_year_range_ids by simp
qed

theorem year_comparison_bounds_witness:
  "lower ''Year'' \<in> set [''start_year'', ''year'']
   \<and> ''>'' \<in> set [''>='', ''>'', ''<='', ''<'']
   \<and> idx sample_engine = build_indices (events sample_engine)
   \<and> years_sorted (idx sample_engine) = [2001, 2015]
   \<and> apply_cmp plain_rt sample_engine ''Year'' ''>'' (PInt 2001) [0, 1, 2]
       = Inr (intersect_sorted (sort [0, 1, 2]) (year_range_ids (idx sample_engine) 2002 2015))
   \<and> apply_cmp plain_rt sample_engine ''Year'' ''>'' (PInt 2001) [0, 1, 2] = Inr [1]
   \<and> hd (years_sorted (idx sample_engine)) = Min (start_year ` set (events sample_engine))
   \<and> sorted (year_range_ids (idx sample_engine) 2002 2015)"
proof -
  have h1: "lower ''Year'' \<in> set [''start_year'', ''year'']" by (simp add: sample_lower_year)
  have h2: "''>'' \<in> set [''>='', ''>'', ''<='', ''<'']" by simp
  have h3: "idx sample_engine = build_indices (events sample_engine)"
    by (simp add: sample_engine_def new_engine_def)
  have ys: "years_sorted (idx sample_engine) = [2001, 2015]"
    by (simp add: sample_engine_def new_engine_def sample_indices)
  have ne: "events sample_engine \<noteq> []"
    by (simp add: sample_engine_fields sample_events_def)
  note t = year_comparison_bounds [OF h1 h2, of plain_rt sample_engine 2001 "[0, 1, 2]"]
  have a: "apply_cmp plain_rt sample_engine ''Year'' ''>'' (PInt 2001) [0, 1, 2]
       = Inr (intersect_sorted (sort [0, 1, 2]) (year_range_ids (idx sample_engine) 2002 2015))"
    using t ys by simp
  have b: "hd (years_sorted (idx sample_engine)) = Min (start_year ` set (events sample_engine))"
    using t h3 ne by blast
  have c: "sorted (year_range_ids (idx sample_engine) 2002 2015)"
    using t h3 by blast
  show ?thesis
    using h1 h2 h3 ys a b c sample_year_gt by (intro conjI)
qed

section \<open>Index path and linear scan\<close>

text \<open>
  When the events are numbered by position, the IDs of the events that satisfy a condition
  form a strictly ascending list, and an ID belongs to it exactly when it is a position whose
  event satisfies the condition.
\<close>

lemma positions_nth:
  assumes "ids_are_positions evs" "j < length evs"
  shows "event_id (evs ! j) = int j"
proof -
  have "map event_id evs ! j = map int [0..<length evs] ! j"
    using assms(1) by (simp add: ids_are_positions_def all_ids_def)
  then show ?thesis using assms(2) by simp
qed

lemma positions_strict: "ids_are_positions evs \<Longrightarrow> sorted_wrt (<) (map event_id evs)"
  by (simp add: ids_are_positions_def all_ids_def sorted_wrt_map)

lemma positions_filter_strict:
  assumes "ids_are_positions evs"
  shows "sorted_wrt (<) (map event_id (filter P evs))"
proof -
  have "sorted_wrt (\<lambda>a b. event_id a < event_id b) evs"
    using positions_strict [OF assms] by (simp add: sorted_wrt_map)
  then have "sorted_wrt (\<lambda>a b. event_id a < event_id b) (filter P evs)"
    by (rule sorted_wrt_filter)
  then show ?thesis by (simp add: sorted_wrt_map)
qed

lemma positions_filter_mem:
  assumes "ids_are_positions evs"
  shows "i \<in> set (map event_id (filter P evs))
           \<longleftrightarrow> 0 \<le> i \<and> i < int (length evs) \<and> P (evs ! nat i)"
proof
  assume "i \<in> set (map event_id (filter P evs))"
  then obtain e where e: "e \<in> set evs" "P e" "i = event_id e" by auto
  then obtain j where j: "j < length evs" "evs ! j = e" by (auto simp: in_set_conv_nth)
  have "i = int j" using positions_nth [OF assms j(1)] j(2) e(3) by simp
  then show "0 \<le> i \<and> i < int (length evs) \<and> P (evs ! nat i)" using j e(2) by simp
next
  assume a: "0 \<le> i \<and> i < int (length evs) \<and> P (evs ! nat i)"
  then have n: "nat i < length evs" by (simp add: nat_less_iff)
  have "event_id (evs ! nat i) = i" using positions_nth [OF assms n] a by simp
  moreover have "evs ! nat i \<in> set (filter P evs)" using n a by simp
  ultimately show "i \<in> set (map event_id (filter P evs))" by (metis image_eqI set_map)
qed

lemma positions_bucket:
  "ids_are_positions evs \<Longrightarrow>
   sort (map event_id (filter P evs)) = map event_id (filter P evs)"
  by (intro sort_strict_id positions_filter_strict)

lemma strict_lists_equal:
  "sorted_wrt (<) (xs :: int list) \<Longrightarrow> sorted_wrt (<) ys \<Longrightarrow> set xs = set ys \<Longrightarrow> xs = ys"
  by (simp add: strict_sorted_iff sorted_distinct_set_unique)

lemma scan_loop_total:
  "(\<forall>i \<in> set cands. 0 \<le> i \<and> i < int (length evs)) \<Longrightarrow>
   scan_loop evs (\<lambda>e. Inr (P e)) cands = Inr (filter (\<lambda>i. P (evs ! nat i)) cands)"
  by (induction cands) (simp_all add: py_index_def Let_def)

lemma country_index_path:
  "apply_cmp rt s ''country'' ''=='' (PStr x) cands
     = Inr (intersect_sorted (sort cands) (dict_get (by_country (idx s)) x))"
  by (simp add: apply_cmp_def Let_def lower_year_fields py_str_def)

lemma country_fallback:
  assumes "\<forall>i \<in> set cands. 0 \<le> i \<and> i < int (length (events s))"
  shows "fallback_scan rt s ''country'' ''=='' (PStr x) cands
           = Inr (sort (filter (\<lambda>i. country (events s ! nat i) = x) cands))"
proof -
  have p: "make_predicate rt ''country'' ''=='' (PStr x) = Inr (\<lambda>e. Inr (country e = x))"
    by (simp add: make_predicate_def get_field_def Let_def lower_year_fields)
  show ?thesis
    using scan_loop_total [OF assms, of "\<lambda>e. country e = x"] by (simp add: fallback_scan_def p)
qed

lemma country_index_is_scan:
  assumes ix: "idx s = build_indices (events s)" and pos: "ids_are_positions (events s)"
    and d: "distinct cands" and v: "\<forall>i \<in> set cands. 0 \<le> i \<and> i < int (length (events s))"
  shows "intersect_sorted (sort cands) (dict_get (by_country (idx s)) x)
           = sort (filter (\<lambda>i. country (events s ! nat i) = x) cands)"
proof (rule strict_lists_equal)
  let ?b = "dict_get (by_country (idx s)) x"
  have b: "?b = map event_id (filter (\<lambda>e. country e = x) (events s))"
    unfolding ix by (simp add: build_indices_buckets positions_bucket [OF pos])
  show "sorted_wrt (<) (intersect_sorted (sort cands) ?b)"
    using d by (rule index_path_result)
  show "sorted_wrt (<) (sort (filter (\<lambda>i. country (events s ! nat i) = x) cands))"
    using d by (intro strict_sort) simp
  have sb: "sorted ?b"
    unfolding b using positions_filter_strict [OF pos] by (simp add: strict_sorted_iff)
  have "set (intersect_sorted (sort cands) ?b) = set cands \<inter> set ?b"
    using set_intersect_sorted_gen [of "sort cands" ?b] sb by simp
  also have "\<dots> = {i \<in> set cands. country (events s ! nat i) = x}"
    unfolding b using v positions_filter_mem [OF pos, of _ "\<lambda>e. country e = x"] by blast
  finally show "set (intersect_sorted (sort cands) ?b)
                  = set (sort (filter (\<lambda>i. country (events s ! nat i) = x) cands))"
    by simp
qed

lemma strict_is_sorted: "sorted_wrt (<) (xs :: int list) \<Longrightarrow> sorted xs"
  by (simp add: strict_sorted_iff)

lemma bench_agree:
  assumes ix: "idx s = build_indices (events s)" and pos: "ids_are_positions (events s)"
  shows "bench_indexed s c dtype y1 y2 = bench_naive s c dtype y1 y2"
proof (rule strict_lists_equal)
  let ?evs = "events s"
  let ?bc = "dict_get (by_country (idx s)) c" and ?bt = "dict_get (by_type (idx s)) dtype"
  let ?yr = "year_range_ids (idx s) y1 y2"
  let ?P = "\<lambda>e. country e = c \<and> disaster_type e = dtype \<and> y1 \<le> start_year e \<and> start_year e \<le> y2"
  have bc: "?bc = map event_id (filter (\<lambda>e. country e = c) ?evs)"
    unfolding ix by (simp add: build_indices_buckets positions_bucket [OF pos])
  have bt: "?bt = map event_id (filter (\<lambda>e. disaster_type e = dtype) ?evs)"
    unfolding ix by (simp add: build_indices_buckets positions_bucket [OF pos])
  have sbc: "sorted_wrt (<) ?bc" unfolding bc by (rule positions_filter_strict [OF pos])
  have sbt: "sorted_wrt (<) ?bt" unfolding bt by (rule positions_filter_strict [OF pos])
  have i1: "sorted_wrt (<) (intersect_sorted ?bc ?bt)" using sbc by (rule strict_intersect_sorted)
  have e: "bench_indexed s c dtype y1 y2 = intersect_sorted (intersect_sorted ?bc ?bt) ?yr"
    by (simp add: bench_indexed_def Let_def)
  show "sorted_wrt (<) (bench_indexed s c dtype y1 y2)"
    unfolding e using i1 by (rule strict_intersect_sorted)
  show "sorted_wrt (<) (bench_naive s c dtype y1 y2)"
    unfolding bench_naive_def by (rule positions_filter_strict [OF pos])
  have mc: "\<And>i. i \<in> set ?bc \<longleftrightarrow> 0 \<le> i \<and> i < int (length ?evs) \<and> country (?evs ! nat i) = c"
    unfolding bc by (rule positions_filter_mem [OF pos])
  have mt: "\<And>i. i \<in> set ?bt \<longleftrightarrow> 0 \<le> i \<and> i < int (length ?evs) \<and> disaster_type (?evs ! nat i) = dtype"
    unfolding bt by (rule positions_filter_mem [OF pos])
  have mn: "\<And>i. i \<in> set (bench_naive s c dtype y1 y2)
              \<longleftrightarrow> 0 \<le> i \<and> i < int (length ?evs) \<and> ?P (?evs ! nat i)"
    unfolding bench_naive_def by (rule positions_filter_mem [OF pos])
  have my: "\<And>i. i \<in> set ?yr \<longleftrightarrow> 0 \<le> i \<and> i < int (length ?evs)
              \<and> y1 \<le> start_year (?evs ! nat i) \<and> start_year (?evs ! nat i) \<le> y2"
  proof -
    fix i
    have "set ?yr = set (map event_id (filter (\<lambda>e. y1 \<le> start_year e \<and> start_year e \<le> y2) ?evs))"
      unfolding ix set_year_range_ids by auto
    then show "i \<in> set ?yr \<longleftrightarrow> 0 \<le> i \<and> i < int (length ?evs)
              \<and> y1 \<le> start_year (?evs ! nat i) \<and> start_year (?evs ! nat i) \<le> y2"
      using positions_filter_mem [OF pos,
          of i "\<lambda>e. y1 \<le> start_year e \<and> start_year e \<le> y2"] by simp
  qed
  have s1: "set (intersect_sorted ?bc ?bt) = set ?bc \<inter> set ?bt"
    using sbc sbt by (intro set_intersect_sorted_gen strict_is_sorted)
  have s2: "set (intersect_sorted (intersect_sorted ?bc ?bt) ?yr)
              = set (intersect_sorted ?bc ?bt) \<inter> set ?yr"
    using i1 by (intro set_intersect_sorted_gen strict_is_sorted sorted_year_range_ids)
  show "set (bench_indexed s c dtype y1 y2) = set (bench_naive s c dtype y1 y2)"
  proof (intro set_eqI)
    fix i
    have "i \<in> set (bench_indexed s c dtype y1 y2)
            \<longleftrightarrow> i \<in> set ?bc \<and> i \<in> set ?bt \<and> i \<in> set ?yr"
      unfolding e s2 s1 by simp
    also have "\<dots> \<longleftrightarrow> i \<in> set (bench_naive s c dtype y1 y2)"
      unfolding mc mt my mn by blast
    finally show "i \<in> set (bench_indexed s c dtype y1 y2)
            \<longleftrightarrow> i \<in> set (bench_naive s c dtype y1 y2)" .
  qed
qed

lemma sample_positions: "ids_are_positions sample_events"
  by (simp add: ids_are_positions_def sample_all_ids) (simp add: sample_events_def mk_event_def)

lemma sample_country_scan:
  "sort (filter (\<lambda>i. country (events sample_engine ! nat i) = ''India'') [0, 1, 2]) = [0, 2]"
  by (simp add: sample_engine_fields sample_events_def mk_event_def)

lemma sample_bench: "bench_naive sample_engine ''India'' ''Earthquake'' 2000 2010 = [2]"
  by (simp add: bench_naive_def sample_engine_fields sample_events_def mk_event_def)

text \<open>
  Where the two paths do agree. Let the index be built from the events and the events be
  numbered by position. For duplicate-free candidates that are positions of the event list,
  and a literal that is already the string \<open>x\<close>, the comparison \<open>country == x\<close> evaluated
  through the country bucket and the same comparison evaluated by the fallback scan both
  return the candidates whose event has country \<open>x\<close>, in ascending order. The benchmark's
  indexed computation returns the same list as its full scan, for every country, type and
  year range.
\<close>

lemma paths_agree_on_string_literal:
  "idx s = build_indices (events s) \<Longrightarrow> ids_are_positions (events s) \<Longrightarrow>
   (distinct cands \<and> (\<forall>i \<in> set cands. 0 \<le> i \<and> i < int (length (events s))) \<longrightarrow>
      apply_cmp rt s ''country'' ''=='' (PStr x) cands
        = Inr (sort (filter (\<lambda>i. country (events s ! nat i) = x) cands))
      \<and> fallback_scan rt s ''country'' ''=='' (PStr x) cands
        = Inr (sort (filter (\<lambda>i. country (events s ! nat i) = x) cands)))
   \<and> bench_indexed s c dtype y1 y2 = bench_naive s c dtype y1 y2"
proof (intro conjI impI)
  assume ix: "idx s = build_indices (events s)" and pos: "ids_are_positions (events s)"
  show "bench_indexed s c dtype y1 y2 = bench_naive s c dtype y1 y2"
    using ix pos by (rule bench_agree)
  assume c: "distinct cands \<and> (\<forall>i \<in> set cands. 0 \<le> i \<and> i < int (length (events s)))"
  then have d: "distinct cands" and v: "\<forall>i \<in> set cands. 0 \<le> i \<and> i < int (length (events s))"
    by simp_all
  show "apply_cmp rt s ''country'' ''=='' (PStr x) cands
        = Inr (sort (filter (\<lambda>i. country (events s ! nat i) = x) cands))"
    using country_index_is_scan [OF ix pos d v, of x] by (simp only: country_index_path)
  show "fallback_scan rt s ''country'' ''=='' (PStr x) cands
        = Inr (sort (filter (\<lambda>i. country (events s ! nat i) = x) cands))"
    using v by (rule country_fallback)
qed

lemma paths_agree_sample:
  "idx sample_engine = build_indices (events sample_engine)
   \<and> ids_are_positions (events sample_engine)
   \<and> distinct [0, 1, 2 :: int]
   \<and> apply_cmp plain_rt sample_engine ''country'' ''=='' (PStr ''India'') [0, 1, 2] = Inr [0, 2]
   \<and> fallback_scan plain_rt sample_engine ''country'' ''=='' (PStr ''India'') [0, 1, 2] = Inr [0, 2]
   \<and> bench_indexed sample_engine ''India'' ''Earthquake'' 2000 2010 = [2]
   \<and> bench_naive sample_engine ''India'' ''Earthquake'' 2000 2010 = [2]"
proof -
  have h1: "idx sample_engine = build_indices (events sample_engine)"
    by (simp add: sample_engine_def new_engine_def)
  have h2: "ids_are_positions (events sample_engine)"
    by (simp add: sample_engine_fields sample_positions)
  have h3: "distinct [0, 1, 2 :: int]
      \<and> (\<forall>i \<in> set [0, 1, 2 :: int]. 0 \<le> i \<and> i < int (length (events sample_engine)))"
    by (simp add: sample_engine_fields sample_events_def)
  note t = paths_agree_on_string_literal [OF h1 h2, of "[0, 1, 2]" plain_rt "''India''" "''India''"
      "''Earthquake''" 2000 2010]
  have a: "apply_cmp plain_rt sample_engine ''country'' ''=='' (PStr ''India'') [0, 1, 2] = Inr [0, 2]"
    and b: "fallback_scan plain_rt sample_engine ''country'' ''=='' (PStr ''India'') [0, 1, 2]
              = Inr [0, 2]"
    using t h3 unfolding sample_country_scan by blast+
  have c: "bench_indexed sample_engine ''India'' ''Earthquake'' 2000 2010 = [2]"
    using t unfolding sample_bench by blast
  show ?thesis using h1 h2 a b c sample_bench by (intro conjI) simp_all
qed

text \<open>
  The literal of a query reaches the comparison through \<^verbatim>\<open>_coerce_value\<close>. Text made of
  ASCII characters without a backslash comes through unchanged; text with any character from
  128 to 255 comes out longer, hence different.
\<close>

lemma utf8_as_latin1_char:
  "1 \<le> length (utf8_as_latin1 c)"
  "128 \<le> (of_char c :: nat) \<Longrightarrow> length (utf8_as_latin1 c) = 2"
  by (simp_all add: utf8_as_latin1_def Let_def)

lemma utf8_as_latin1_length: "length s \<le> length (concat (map utf8_as_latin1 s))"
proof (induction s)
  case Nil
  then show ?case by simp
next
  case (Cons a s)
  then show ?case using utf8_as_latin1_char(1) [of a] by simp
qed

lemma utf8_as_latin1_longer:
  "c \<in> set s \<Longrightarrow> 128 \<le> (of_char c :: nat) \<Longrightarrow>
   length s < length (concat (map utf8_as_latin1 s))"
proof (induction s)
  case Nil
  then show ?case by simp
next
  case (Cons a s)
  show ?case
  proof (cases "a = c")
    case True
    then show ?thesis
      using utf8_as_latin1_char(2) [OF Cons.prems(2)] utf8_as_latin1_length [of s] by simp
  next
    case False
    then have "length s < length (concat (map utf8_as_latin1 s))"
      using Cons by simp
    then show ?thesis using utf8_as_latin1_char(1) [of a] by simp
  qed
qed

lemma decode_escapes_ascii:
  assumes "CHR 0x5C \<notin> set s" "\<forall>c \<in> set s. (of_char c :: nat) < 128"
  shows "decode_escapes rt s = Inr s"
proof -
  have "concat (map utf8_as_latin1 s) = s"
    using assms(2) by (induction s) (simp_all add: utf8_as_latin1_def)
  then show ?thesis using assms(1) by (simp add: decode_escapes_def)
qed

lemma decode_escapes_non_ascii:
  assumes "CHR 0x5C \<notin> set s" "c \<in> set s" "128 \<le> (of_char c :: nat)"
  shows "decode_escapes rt s \<noteq> Inr s"
  using assms(1) utf8_as_latin1_longer [OF assms(2,3)] by (auto simp: decode_escapes_def)

text \<open>
  Claim C7 (the indexed path and the linear scan return the same IDs for the same predicate).
  They do not. The dataset \<open>accent_events\<close> is numbered by position, its index is built from
  it, and both events are selected. The query \<open>country == '...'\<close> that names the first country
  completes and selects nothing, because the literal arrives at the country bucket with the
  letter outside ASCII replaced by two characters; the explicit scan for that country, and
  the fallback scan given the name itself, return the first event. For the query
  \<open>country == 5\<close> the indexed path looks up the text \<open>5\<close> and selects the second event, while
  the fallback scan of the same comparison compares a string with a number and selects
  nothing.
\<close>

theorem where_country_differs_from_scan:
  "ids_are_positions (events accent_engine)
   \<and> idx accent_engine = build_indices (events accent_engine)
   \<and> active_ids (state accent_engine) = [0, 1]
   \<and> where_expr rt accent_engine accent_query
       = (Inr (), set_active [] (push_history accent_engine))
   \<and> filter (\<lambda>i. country (events accent_engine ! nat i) = accent_country) [0, 1] = [0]
   \<and> fallback_scan rt accent_engine ''country'' ''=='' (PStr accent_country) [0, 1] = Inr [0]
   \<and> where_expr rt accent_engine ''country == 5''
       = (Inr (), set_active [1] (push_history accent_engine))
   \<and> apply_cmp rt accent_engine ''country'' ''=='' (PInt 5) [0, 1] = Inr [1]
   \<and> fallback_scan rt accent_engine ''country'' ''=='' (PInt 5) [0, 1] = Inr []"
  by (intro conjI; code_simp)

end
